theory Spec2Isabelle
  imports Main
begin

section \<open>Values\<close>

text \<open>
  A finite Python float is a mantissa and a binary exponent: the program looks at its
  being zero (truthiness) and at its value (equality with a key or an element).
\<close>

datatype pyfloat = PyFloat int int

text \<open>
  The values that \<^verbatim>\<open>json.load\<close>, \<^verbatim>\<open>res.json()\<close> and \<^verbatim>\<open>yaml.safe_load\<close> produce. A Python dict
  keeps insertion order, so an object is an association list (a parser returns distinct
  keys). \<open>JNull\<close> is Python's None.
\<close>

datatype json =
    JNull
  | JBool bool
  | JInt int
  | JFloat pyfloat
  | JStr string
  | JArr "json list"
  | JObj "(string \<times> json) list"

text \<open>The exceptions that the program can end with.\<close>

datatype error =
    AssertionError
  | AttributeError
  | KeyError
  | IndexError
  | TypeError
  | OverflowError
  | JSONDecodeError
  | FileNotFoundError
  | FileExistsError
  | IsADirectoryError
  | RequestException
  | SystemExit

text \<open>Python's truth value of a JSON value (\<^verbatim>\<open>not base_json\<close>).\<close>

fun truthy :: "json \<Rightarrow> bool" where
  "truthy JNull = False"
| "truthy (JBool b) = b"
| "truthy (JInt i) = (i \<noteq> 0)"
| "truthy (JFloat (PyFloat m e)) = (m \<noteq> 0)"
| "truthy (JStr s) = (s \<noteq> [])"
| "truthy (JArr xs) = (xs \<noteq> [])"
| "truthy (JObj kvs) = (kvs \<noteq> [])"

fun starts_with :: "string \<Rightarrow> string \<Rightarrow> bool" where
  "starts_with [] t = True"
| "starts_with (c # s) [] = False"
| "starts_with (c # s) (d # t) = (c = d \<and> starts_with s t)"

fun is_substr :: "string \<Rightarrow> string \<Rightarrow> bool" where
  "is_substr s [] = (s = [])"
| "is_substr s (d # t) = (starts_with s (d # t) \<or> is_substr s t)"

text \<open>\<^verbatim>\<open>key in obj\<close> for a string key: dict keys, list elements, substring of a string.\<close>

fun contains :: "json \<Rightarrow> string \<Rightarrow> error + bool" where
  "contains (JObj kvs) k = Inr (k \<in> set (map fst kvs))"
| "contains (JArr xs) k = Inr (JStr k \<in> set xs)"
| "contains (JStr s) k = Inr (is_substr k s)"
| "contains v k = Inl TypeError"

text \<open>\<^verbatim>\<open>obj[key]\<close> for a string key: only a dict can be subscripted by a string.\<close>

fun getitem :: "json \<Rightarrow> string \<Rightarrow> error + json" where
  "getitem (JObj kvs) k = (case map_of kvs k of None \<Rightarrow> Inl KeyError | Some v \<Rightarrow> Inr v)"
| "getitem v k = Inl TypeError"

text \<open>
  \<^verbatim>\<open>obj[key]\<close> for a key that is a list: a list or a string wants an integer index, a list
  is unhashable as a dict key, and nothing else can be subscripted.
\<close>

definition getitem_by_list :: "json \<Rightarrow> json list \<Rightarrow> error + json" where
  "getitem_by_list v key = Inl TypeError"

text \<open>\<^verbatim>\<open>d[k] = v\<close> on a dict: an existing key keeps its place, a new key goes last.\<close>

fun dict_set :: "(string \<times> json) list \<Rightarrow> string \<Rightarrow> json \<Rightarrow> (string \<times> json) list" where
  "dict_set [] k v = [(k, v)]"
| "dict_set (p # ps) k v = (if fst p = k then (k, v) # ps else p # dict_set ps k v)"

text \<open>\<^verbatim>\<open>obj.get(key, default)\<close>: a method of dicts only.\<close>

fun py_get :: "json \<Rightarrow> string \<Rightarrow> json \<Rightarrow> error + json" where
  "py_get (JObj kvs) k d = Inr (case map_of kvs k of None \<Rightarrow> d | Some v \<Rightarrow> v)"
| "py_get v k d = Inl AttributeError"

text \<open>\<^verbatim>\<open>for x in obj\<close>: the elements of a list, the keys of a dict, the characters of a string.\<close>

fun py_iter :: "json \<Rightarrow> error + json list" where
  "py_iter (JArr xs) = Inr xs"
| "py_iter (JObj kvs) = Inr (map (\<lambda>p. JStr (fst p)) kvs)"
| "py_iter (JStr s) = Inr (map (\<lambda>c. JStr [c]) s)"
| "py_iter v = Inl TypeError"

section \<open>The record set in memory\<close>

text \<open>
  The value of a number: integer \<open>m\<close> times two to the power \<open>e\<close>. True and False count as
  1 and 0, as they do in Python's comparisons.
\<close>

fun number :: "json \<Rightarrow> (int \<times> int) option" where
  "number (JInt i) = Some (i, 0)"
| "number (JBool b) = Some (if b then 1 else 0, 0)"
| "number (JFloat (PyFloat m e)) = Some (m, e)"
| "number v = None"

definition same_number :: "int \<times> int \<Rightarrow> int \<times> int \<Rightarrow> bool" where
  "same_number x y =
     (let e = min (snd x) (snd y)
      in fst x * 2 ^ nat (snd x - e) = fst y * 2 ^ nat (snd y - e))"

text \<open>
  \<^verbatim>\<open>a == b\<close> on parsed values: numbers by value, strings and None as they are, lists
  element by element, dicts key by key whatever the order.
\<close>

fun py_eq :: "json \<Rightarrow> json \<Rightarrow> bool"
  and py_eq_list :: "json list \<Rightarrow> json list \<Rightarrow> bool"
  and py_eq_obj :: "(string \<times> json) list \<Rightarrow> (string \<times> json) list \<Rightarrow> bool" where
  "py_eq (JStr a) b = (b = JStr a)"
| "py_eq JNull b = (b = JNull)"
| "py_eq (JArr xs) b = (case b of JArr ys \<Rightarrow> py_eq_list xs ys | _ \<Rightarrow> False)"
| "py_eq (JObj kvs) b =
     (case b of JObj kvs' \<Rightarrow> length kvs = length kvs' \<and> py_eq_obj kvs kvs' | _ \<Rightarrow> False)"
| "py_eq (JInt i) b =
     (case number b of Some y \<Rightarrow> same_number (i, 0) y | None \<Rightarrow> False)"
| "py_eq (JBool c) b =
     (case number b of Some y \<Rightarrow> same_number (if c then 1 else 0, 0) y | None \<Rightarrow> False)"
| "py_eq (JFloat (PyFloat m e)) b =
     (case number b of Some y \<Rightarrow> same_number (m, e) y | None \<Rightarrow> False)"
| "py_eq_list [] ys = (ys = [])"
| "py_eq_list (x # xs) ys =
     (case ys of [] \<Rightarrow> False | y # ys' \<Rightarrow> py_eq x y \<and> py_eq_list xs ys')"
| "py_eq_obj [] kvs' = True"
| "py_eq_obj (p # kvs) kvs' =
     ((case map_of kvs' (fst p) of Some v' \<Rightarrow> py_eq (snd p) v' | None \<Rightarrow> False) \<and>
      py_eq_obj kvs kvs')"

text \<open>
  The keys that the dict \<^verbatim>\<open>adv_json\<close> can hold: the strings that a parser gives, and the
  integers and booleans that line 124 can add (see \<open>subscript\<close>).
\<close>

datatype pykey = KStr string | KInt int | KBool bool

text \<open>
  \<^verbatim>\<open>adv_json\<close> in memory: a dict, a list, or a value that is neither (a string, a number,
  a boolean, None).
\<close>

datatype adv_json = AdvDict "(pykey \<times> json) list" | AdvList "json list" | AdvOther json

text \<open>What \<^verbatim>\<open>json.loads\<close> returns, as the object that the loop works on.\<close>

fun loaded :: "json \<Rightarrow> adv_json" where
  "loaded (JObj kvs) = AdvDict (map (\<lambda>p. (KStr (fst p), snd p)) kvs)"
| "loaded (JArr xs) = AdvList xs"
| "loaded v = AdvOther v"

fun key_number :: "pykey \<Rightarrow> int option" where
  "key_number (KStr s) = None"
| "key_number (KInt i) = Some i"
| "key_number (KBool b) = Some (if b then 1 else 0)"

text \<open>\<^verbatim>\<open>key == x\<close> for a key of a dict: equal strings, or equal numbers.\<close>

definition key_matches :: "pykey \<Rightarrow> json \<Rightarrow> bool" where
  "key_matches k x =
     (case k of
        KStr s \<Rightarrow> x = JStr s
      | _ \<Rightarrow>
          (case (key_number k, number x) of
             (Some i, Some y) \<Rightarrow> same_number (i, 0) y
           | _ \<Rightarrow> False))"

text \<open>
  \<^verbatim>\<open>replay_id in adv_json\<close> (line 113): a key of a dict, where a list or a dict cannot be
  hashed; an element of a list; a substring of a string; not defined on the rest.
\<close>

fun member :: "adv_json \<Rightarrow> json \<Rightarrow> error + bool" where
  "member (AdvDict kvs) x =
     (case x of
        JArr xs \<Rightarrow> Inl TypeError
      | JObj ms \<Rightarrow> Inl TypeError
      | _ \<Rightarrow> Inr (list_ex (\<lambda>p. key_matches (fst p) x) kvs))"
| "member (AdvList xs) x = Inr (list_ex (\<lambda>y. py_eq y x) xs)"
| "member (AdvOther v) x =
     (case v of
        JStr s \<Rightarrow> (case x of JStr k \<Rightarrow> Inr (is_substr k s) | _ \<Rightarrow> Inl TypeError)
      | _ \<Rightarrow> Inl TypeError)"

text \<open>
  The position that an index names in a sequence of length \<open>n\<close>: a negative index counts
  from the end.
\<close>

definition py_index :: "nat \<Rightarrow> int \<Rightarrow> nat option" where
  "py_index n i =
     (let j = (if i < 0 then i + int n else i)
      in if 0 \<le> j \<and> j < int n then Some (nat j) else None)"

fun int_key :: "json \<Rightarrow> (pykey \<times> int) option" where
  "int_key (JInt i) = Some (KInt i, i)"
| "int_key (JBool b) = Some (KBool b, if b then 1 else 0)"
| "int_key v = None"

text \<open>
  \<^verbatim>\<open>res.json()[replay_id]\<close> (line 124): the value, and with it the key in the form in which
  a dict holds it. A dict is subscripted by a string (a list or a dict cannot be hashed,
  and no other value equals one of its keys, which are strings); a list or a string by an
  integer or a boolean; nothing else can be subscripted.
\<close>

fun subscript :: "json \<Rightarrow> json \<Rightarrow> error + pykey \<times> json" where
  "subscript (JObj kvs) x =
     (case x of
        JStr s \<Rightarrow> (case map_of kvs s of None \<Rightarrow> Inl KeyError | Some v \<Rightarrow> Inr (KStr s, v))
      | JArr xs \<Rightarrow> Inl TypeError
      | JObj ms \<Rightarrow> Inl TypeError
      | _ \<Rightarrow> Inl KeyError)"
| "subscript (JArr xs) x =
     (case int_key x of
        None \<Rightarrow> Inl TypeError
      | Some (k, i) \<Rightarrow>
          (case py_index (length xs) i of
             None \<Rightarrow> Inl IndexError
           | Some n \<Rightarrow> Inr (k, xs ! n)))"
| "subscript (JStr s) x =
     (case int_key x of
        None \<Rightarrow> Inl TypeError
      | Some (k, i) \<Rightarrow>
          (case py_index (length s) i of
             None \<Rightarrow> Inl IndexError
           | Some n \<Rightarrow> Inr (k, JStr [s ! n])))"
| "subscript v x = Inl TypeError"

text \<open>
  \<^verbatim>\<open>adv_json[replay_id] = v\<close> (line 124). In a dict, a key equal to one that is there
  (1 and True are equal) keeps the old key and its place; a new key goes last. A list
  takes an index in range; nothing else takes an assignment.
\<close>

definition same_key :: "pykey \<Rightarrow> pykey \<Rightarrow> bool" where
  "same_key k k' =
     (case k of
        KStr s \<Rightarrow> k' = KStr s
      | _ \<Rightarrow> key_number k' \<noteq> None \<and> key_number k' = key_number k)"

fun dict_put :: "(pykey \<times> json) list \<Rightarrow> pykey \<Rightarrow> json \<Rightarrow> (pykey \<times> json) list" where
  "dict_put [] k v = [(k, v)]"
| "dict_put (p # ps) k v =
     (if same_key (fst p) k then (fst p, v) # ps else p # dict_put ps k v)"

fun setitem :: "adv_json \<Rightarrow> pykey \<Rightarrow> json \<Rightarrow> error + adv_json" where
  "setitem (AdvDict kvs) k v = Inr (AdvDict (dict_put kvs k v))"
| "setitem (AdvList xs) k v =
     (case key_number k of
        None \<Rightarrow> Inl TypeError
      | Some i \<Rightarrow>
          (case py_index (length xs) i of
             None \<Rightarrow> Inl IndexError
           | Some n \<Rightarrow> Inr (AdvList (xs[n := v]))))"
| "setitem (AdvOther j) k v = Inl TypeError"

text \<open>The decimal text of an integer, as \<^verbatim>\<open>json.dump\<close> writes an integer key.\<close>

fun show_nat :: "nat \<Rightarrow> string" where
  "show_nat n =
     (if n < 10 then [''0123456789'' ! n]
      else show_nat (n div 10) @ [''0123456789'' ! (n mod 10)])"

definition show_int :: "int \<Rightarrow> string" where
  "show_int i = (if i < 0 then CHR ''-'' # show_nat (nat (- i)) else show_nat (nat i))"

fun key_text :: "pykey \<Rightarrow> string" where
  "key_text (KStr s) = s"
| "key_text (KInt i) = show_int i"
| "key_text (KBool b) = (if b then ''true'' else ''false'')"

fun is_str_key :: "pykey \<Rightarrow> bool" where
  "is_str_key (KStr s) = True"
| "is_str_key k = False"

text \<open>
  What \<^verbatim>\<open>json.load\<close> makes of the members of an object in the order of the text: a name
  that comes again keeps its first place and takes the later value.
\<close>

definition reloaded :: "(string \<times> json) list \<Rightarrow> (string \<times> json) list" where
  "reloaded ms = foldl (\<lambda>acc p. dict_set acc (fst p) (snd p)) [] ms"

text \<open>
  What the text written by \<^verbatim>\<open>json.dump(obj=adv_json, ...)\<close> parses to. The members of a dict
  are written in order, each key as text. The keys of a dict are distinct, so when all
  of them are strings the members are read back as they are; a key that is not a string
  may come out as the text of another key.
\<close>

fun dumped :: "adv_json \<Rightarrow> json" where
  "dumped (AdvDict kvs) =
     JObj (if list_all (\<lambda>p. is_str_key (fst p)) kvs
           then map (\<lambda>p. (key_text (fst p), snd p)) kvs
           else reloaded (map (\<lambda>p. (key_text (fst p), snd p)) kvs))"
| "dumped (AdvList xs) = JArr xs"
| "dumped (AdvOther v) = v"

section \<open>The world: cache files, requests, log\<close>

text \<open>
  A cache file is represented by what \<^verbatim>\<open>json.load\<close> makes of its text: \<open>Blank\<close> is the empty
  file, \<open>Doc j\<close> a text that parses to \<open>j\<close> (what \<^verbatim>\<open>json.dump\<close> of \<open>j\<close> writes), \<open>Junk\<close> a
  non-empty text that does not parse.
\<close>

datatype content = Blank | Doc json | Junk

datatype node = Dir | File content

text \<open>
  A request is its endpoint and the values that go into its URL and query:
  \<^verbatim>\<open>Player/Replays\<close> with base_url, mode, region, game_type label, battletag, api_token;
  \<^verbatim>\<open>Replay/Data\<close> with base_url, mode, api_token, replayID. The method \<^verbatim>\<open>_params\<close> only
  collects the attributes of the identity: the game_type that it expands is replaced by
  the label in the first request and left out of the second.
\<close>

datatype request =
    PlayerReplays json json json string json json
  | ReplayData json json json json

datatype body = JsonBody json | NotJson

datatype response = Response int body | ConnectionFailed

text \<open>The remote answers a request knowing the requests made before it.\<close>

type_synonym remote = "request list \<Rightarrow> request \<Rightarrow> response"

datatype event =
    InfoDownloadingBase string string
  | ErrorNotValidJson string
  | InfoDownloadingAdvanced string string
  | InfoNoReplaysExist string string
  | ErrorUnableToDownload json string string
  | ErrorResponse response
  | InfoAllDownloaded string string
  | InfoAdvancedDownloaded nat
  | ErrorYaml

record world =
  files :: "string \<rightharpoonup> node"
  trace :: "request list"
  log :: "event list"

definition GAME_TYPES :: "(string \<times> string) list" where
  "GAME_TYPES =
     [(''qm'', ''Quick Match''), (''sl'', ''Storm League''),
      (''ud'', ''Unranked Draft''), (''aram'', ''ARAM'')]"

record battle_tag =
  battletag :: json
  api_token :: json
  api_token_path :: json
  base_url :: json
  mode :: json
  region :: json
  game_type :: json

text \<open>\<^verbatim>\<open>BattleTag(tag)\<close>: every other attribute is None.\<close>

definition BattleTag :: "json \<Rightarrow> battle_tag" where
  "BattleTag tag =
     \<lparr>battletag = tag, api_token = JNull, api_token_path = JNull, base_url = JNull,
      mode = JNull, region = JNull, game_type = JNull\<rparr>"

text \<open>\<^verbatim>\<open>self.battletag.split('#')[0]\<close>: only a string has \<^verbatim>\<open>split\<close>.\<close>

fun username_of :: "battle_tag \<Rightarrow> error + string" where
  "username_of t =
     (case battletag t of
        JStr s \<Rightarrow> Inr (takeWhile (\<lambda>c. c \<noteq> CHR ''#'') s)
      | _ \<Rightarrow> Inl AttributeError)"

definition base_file :: "string \<Rightarrow> string \<Rightarrow> string" where
  "base_file username g = username @ ''/base'' @ ''/'' @ g"

definition adv_file :: "string \<Rightarrow> string \<Rightarrow> string" where
  "adv_file username g = username @ ''/advanced'' @ ''/'' @ g"

text \<open>
  \<^verbatim>\<open>os.makedirs(p, exist_ok=True)\<close>: the path becomes a directory, unless a regular file
  is there. The components above it are not tracked.
\<close>

definition makedirs :: "string \<Rightarrow> world \<Rightarrow> (error + unit) \<times> world" where
  "makedirs p w =
     (case files w p of
        Some (File c) \<Rightarrow> (Inl FileExistsError, w)
      | _ \<Rightarrow> (Inr (), w\<lparr>files := (files w)(p \<mapsto> Dir)\<rparr>))"

definition write_file :: "string \<Rightarrow> content \<Rightarrow> world \<Rightarrow> world" where
  "write_file p c w = w\<lparr>files := (files w)(p \<mapsto> File c)\<rparr>"

definition add_log :: "event list \<Rightarrow> world \<Rightarrow> world" where
  "add_log es w = w\<lparr>log := log w @ es\<rparr>"

definition send :: "request \<Rightarrow> world \<Rightarrow> world" where
  "send req w = w\<lparr>trace := trace w @ [req]\<rparr>"

section \<open>Phase 1: download_base_replays\<close>

text \<open>
  Lines 64-72: the listing request, the assertion on the status, the file opened for
  writing (so emptied) before \<^verbatim>\<open>res.json()\<close> is evaluated, then the dump.
\<close>

definition fetch_base :: "remote \<Rightarrow> battle_tag \<Rightarrow> string \<Rightarrow> string \<Rightarrow> string \<Rightarrow> world
    \<Rightarrow> (error + unit) \<times> world" where
  "fetch_base R t username g label w =
     (let w1 = add_log [InfoDownloadingBase username g] w;
          req = PlayerReplays (base_url t) (mode t) (region t) label (battletag t) (api_token t);
          w2 = send req w1
      in case R (trace w1) req of
           ConnectionFailed \<Rightarrow> (Inl RequestException, w2)
         | Response status b \<Rightarrow>
             if status \<noteq> 200 then (Inl AssertionError, w2)
             else (case files w2 (base_file username g) of
                     Some Dir \<Rightarrow> (Inl IsADirectoryError, w2)
                   | _ \<Rightarrow>
                       (let w3 = write_file (base_file username g) Blank w2
                        in case b of
                             NotJson \<Rightarrow> (Inl JSONDecodeError, w3)
                           | JsonBody j \<Rightarrow>
                               (Inr (), write_file (base_file username g) (Doc j) w3))))"

text \<open>Lines 75-80: the file is read back; a decoding error or a missing file exits.\<close>

definition verify_base :: "string \<Rightarrow> string \<Rightarrow> world \<Rightarrow> (error + unit) \<times> world" where
  "verify_base username g w =
     (case files w (base_file username g) of
        Some (File (Doc j)) \<Rightarrow> (Inr (), w)
      | Some (File c) \<Rightarrow>
          (Inl SystemExit, add_log [ErrorNotValidJson (base_file username g)] w)
      | None \<Rightarrow> (Inl SystemExit, add_log [ErrorNotValidJson (base_file username g)] w)
      | Some Dir \<Rightarrow> (Inl IsADirectoryError, w))"

text \<open>The body of the loop of lines 60-80, for one game type.\<close>

definition base_step :: "remote \<Rightarrow> battle_tag \<Rightarrow> string \<Rightarrow> string \<Rightarrow> string \<Rightarrow> world
    \<Rightarrow> (error + unit) \<times> world" where
  "base_step R t username g label w =
     (case (case files w (base_file username g) of
              Some (File c) \<Rightarrow> (Inr (), w)
            | _ \<Rightarrow> fetch_base R t username g label w) of
        (Inl e, w1) \<Rightarrow> (Inl e, w1)
      | (Inr u, w1) \<Rightarrow> verify_base username g w1)"

text \<open>
  The loop of line 60 over the keys of \<^verbatim>\<open>GAME_TYPES\<close>, each with its label
  \<^verbatim>\<open>GAME_TYPES[game_type]\<close>; an exception leaves it.
\<close>

fun base_loop :: "remote \<Rightarrow> battle_tag \<Rightarrow> string \<Rightarrow> (string \<times> string) list \<Rightarrow> world
    \<Rightarrow> (error + unit) \<times> world" where
  "base_loop R t username [] w = (Inr (), w)"
| "base_loop R t username ((g, label) # gls) w =
     (case base_step R t username g label w of
        (Inl e, w1) \<Rightarrow> (Inl e, w1)
      | (Inr u, w1) \<Rightarrow> base_loop R t username gls w1)"

definition download_base_replays :: "remote \<Rightarrow> battle_tag \<Rightarrow> world \<Rightarrow> (error + unit) \<times> world" where
  "download_base_replays R t w =
     (case username_of t of
        Inl e \<Rightarrow> (Inl e, w)
      | Inr username \<Rightarrow>
          (case makedirs (username @ ''/base'') w of
             (Inl e, w1) \<Rightarrow> (Inl e, w1)
           | (Inr u, w1) \<Rightarrow> base_loop R t username GAME_TYPES w1))"

section \<open>Phase 2: download_advanced_replays\<close>

text \<open>
  The loop of lines 112-129 over the identifiers still to visit, with the record set and
  the count so far. A status other than 200 logs and leaves the loop with what was
  accumulated; an exception leaves with the error.
\<close>

fun fetch_loop :: "remote \<Rightarrow> battle_tag \<Rightarrow> string \<Rightarrow> string \<Rightarrow> json list \<Rightarrow> adv_json \<Rightarrow> nat
    \<Rightarrow> world \<Rightarrow> (error + adv_json \<times> nat) \<times> world" where
  "fetch_loop R t username g [] adv cnt w = (Inr (adv, cnt), w)"
| "fetch_loop R t username g (replay_id # rest) adv cnt w =
     (case member adv replay_id of
        Inl e \<Rightarrow> (Inl e, w)
      | Inr True \<Rightarrow> fetch_loop R t username g rest adv cnt w
      | Inr False \<Rightarrow>
          (let req = ReplayData (base_url t) (mode t) (api_token t) replay_id;
               w1 = send req w
           in case R (trace w) req of
                ConnectionFailed \<Rightarrow> (Inl RequestException, w1)
              | Response status b \<Rightarrow>
                  if status = 200 then
                    (case b of
                       NotJson \<Rightarrow> (Inl JSONDecodeError, w1)
                     | JsonBody j \<Rightarrow>
                         (case subscript j replay_id of
                            Inl e \<Rightarrow> (Inl e, w1)
                          | Inr (k, v) \<Rightarrow>
                              (case setitem adv k v of
                                 Inl e \<Rightarrow> (Inl e, w1)
                               | Inr adv' \<Rightarrow>
                                   fetch_loop R t username g rest adv' (cnt + 1) w1)))
                  else
                    (Inr (adv, cnt),
                     add_log [ErrorUnableToDownload replay_id username g,
                              ErrorResponse (Response status b)] w1)))"

text \<open>
  Lines 96-102: the file is opened in mode \<^verbatim>\<open>a+\<close> (created empty when absent) and read; an
  empty text gives an empty dict.
\<close>

definition load_adv :: "string \<Rightarrow> world \<Rightarrow> (error + adv_json) \<times> world" where
  "load_adv p w =
     (case files w p of
        Some Dir \<Rightarrow> (Inl IsADirectoryError, w)
      | None \<Rightarrow> (Inr (AdvDict []), write_file p Blank w)
      | Some (File Blank) \<Rightarrow> (Inr (AdvDict []), w)
      | Some (File (Doc j)) \<Rightarrow> (Inr (loaded j), w)
      | Some (File Junk) \<Rightarrow> (Inl JSONDecodeError, w))"

text \<open>
  Lines 105-135, once both files are open: the advanced file has been emptied by its
  opening in mode \<^verbatim>\<open>w\<close>, and is written only by the two \<^verbatim>\<open>json.dump\<close> calls.
\<close>

definition reconcile :: "remote \<Rightarrow> battle_tag \<Rightarrow> string \<Rightarrow> string \<Rightarrow> string \<Rightarrow> content
    \<Rightarrow> adv_json \<Rightarrow> world \<Rightarrow> (error + unit) \<times> world" where
  "reconcile R t username g label basec adv w =
     (case basec of
        Doc base_json \<Rightarrow>
          if \<not> truthy base_json then
            (Inr (), add_log [InfoNoReplaysExist username g]
                       (write_file (adv_file username g) (Doc (dumped adv)) w))
          else
            (case getitem base_json label of
               Inl e \<Rightarrow> (Inl e, w)
             | Inr listing \<Rightarrow>
                 (case py_iter listing of
                    Inl e \<Rightarrow> (Inl e, w)
                  | Inr ids \<Rightarrow>
                      (case fetch_loop R t username g ids adv 0 w of
                         (Inl e, w1) \<Rightarrow> (Inl e, w1)
                       | (Inr (adv', cnt), w1) \<Rightarrow>
                           (Inr (),
                            add_log [if cnt = 0 then InfoAllDownloaded username g
                                     else InfoAdvancedDownloaded cnt]
                              (write_file (adv_file username g) (Doc (dumped adv')) w1)))))
      | _ \<Rightarrow> (Inl JSONDecodeError, w))"

text \<open>The body of the loop of lines 89-135, for one game type.\<close>

definition adv_step :: "remote \<Rightarrow> battle_tag \<Rightarrow> string \<Rightarrow> string \<Rightarrow> string \<Rightarrow> world
    \<Rightarrow> (error + unit) \<times> world" where
  "adv_step R t username g label w =
     (let w0 = add_log [InfoDownloadingAdvanced username g] w
      in case load_adv (adv_file username g) w0 of
           (Inl e, w1) \<Rightarrow> (Inl e, w1)
         | (Inr adv, w1) \<Rightarrow>
             (case files w1 (base_file username g) of
                None \<Rightarrow> (Inl FileNotFoundError, w1)
              | Some Dir \<Rightarrow> (Inl IsADirectoryError, w1)
              | Some (File basec) \<Rightarrow>
                  reconcile R t username g label basec adv
                    (write_file (adv_file username g) Blank w1)))"

fun adv_loop :: "remote \<Rightarrow> battle_tag \<Rightarrow> string \<Rightarrow> (string \<times> string) list \<Rightarrow> world
    \<Rightarrow> (error + unit) \<times> world" where
  "adv_loop R t username [] w = (Inr (), w)"
| "adv_loop R t username ((g, label) # gls) w =
     (case adv_step R t username g label w of
        (Inl e, w1) \<Rightarrow> (Inl e, w1)
      | (Inr u, w1) \<Rightarrow> adv_loop R t username gls w1)"

definition download_advanced_replays :: "remote \<Rightarrow> battle_tag \<Rightarrow> world \<Rightarrow> (error + unit) \<times> world" where
  "download_advanced_replays R t w =
     (case username_of t of
        Inl e \<Rightarrow> (Inl e, w)
      | Inr username \<Rightarrow>
          (case makedirs (username @ ''/advanced'') w of
             (Inl e, w1) \<Rightarrow> (Inl e, w1)
           | (Inr u, w1) \<Rightarrow> adv_loop R t username GAME_TYPES w1))"

text \<open>
  The body of the loop of \<^verbatim>\<open>BattleTags.download_advanced_replays\<close> (lines 162-164), for
  one identity, and the loop itself: an exception ends the process.
\<close>

definition fetch_tag :: "remote \<Rightarrow> battle_tag \<Rightarrow> world \<Rightarrow> (error + unit) \<times> world" where
  "fetch_tag R t w =
     (case download_base_replays R t w of
        (Inl e, w1) \<Rightarrow> (Inl e, w1)
      | (Inr u, w1) \<Rightarrow> download_advanced_replays R t w1)"

fun fetch_tags :: "remote \<Rightarrow> battle_tag list \<Rightarrow> world \<Rightarrow> (error + unit) \<times> world" where
  "fetch_tags R [] w = (Inr (), w)"
| "fetch_tags R (t # ts) w =
     (case fetch_tag R t w of
        (Inl e, w1) \<Rightarrow> (Inl e, w1)
      | (Inr u, w1) \<Rightarrow> fetch_tags R ts w1)"

section \<open>Configuration: setup_battle_tags_from_config\<close>

text \<open>
  The characters that \<^verbatim>\<open>str.strip()\<close> removes, among the 256 that a \<open>char\<close> can be: tab,
  line feed, vertical tab, form feed, carriage return, the four separators 0x1C-0x1F,
  space, next line (0x85) and no-break space (0xA0).
\<close>

definition is_space :: "char \<Rightarrow> bool" where
  "is_space c =
     (c \<in> set [CHR 0x09, CHR 0x0A, CHR 0x0B, CHR 0x0C, CHR 0x0D,
               CHR 0x1C, CHR 0x1D, CHR 0x1E, CHR 0x1F, CHR 0x20, CHR 0x85, CHR 0xA0])"

definition strip :: "string \<Rightarrow> string" where
  "strip s = rev (dropWhile is_space (rev (dropWhile is_space s)))"

definition PROPERTIES :: "string list" where
  "PROPERTIES = [''api_token_path'', ''base_url'', ''mode'', ''region'', ''game_type'']"

text \<open>\<^verbatim>\<open>setattr(tag_obj, ppty, v)\<close> for the five property names of the loop.\<close>

definition setattr :: "battle_tag \<Rightarrow> string \<Rightarrow> json \<Rightarrow> battle_tag" where
  "setattr t ppty v =
     (if ppty = ''api_token_path'' then t\<lparr>api_token_path := v\<rparr>
      else if ppty = ''base_url'' then t\<lparr>base_url := v\<rparr>
      else if ppty = ''mode'' then t\<lparr>mode := v\<rparr>
      else if ppty = ''region'' then t\<lparr>region := v\<rparr>
      else if ppty = ''game_type'' then t\<lparr>game_type := v\<rparr>
      else t)"

text \<open>
  What \<^verbatim>\<open>os.path.isfile\<close> and \<^verbatim>\<open>open\<close> take: a path, or the number of a file descriptor (an
  integer; True and False are the integers 1 and 0). Anything else is a TypeError.
\<close>

datatype source = Path string | Fd int

fun source_of :: "json \<Rightarrow> source option" where
  "source_of (JStr p) = Some (Path p)"
| "source_of (JInt i) = Some (Fd i)"
| "source_of (JBool b) = Some (Fd (if b then 1 else 0))"
| "source_of v = None"

text \<open>
  A descriptor number must fit a C int, or \<^verbatim>\<open>os.stat\<close> raises OverflowError, which
  \<^verbatim>\<open>os.path.isfile\<close> lets through.
\<close>

fun fits :: "source \<Rightarrow> bool" where
  "fits (Path p) = True"
| "fits (Fd i) = (- (2 ^ 31) \<le> i \<and> i < 2 ^ 31)"

text \<open>Leaving the \<^verbatim>\<open>with\<close> block closes what was opened: a descriptor is gone after it.\<close>

fun closed :: "source \<Rightarrow> (source \<rightharpoonup> string) \<Rightarrow> (source \<rightharpoonup> string)" where
  "closed (Path p) texts = texts"
| "closed (Fd i) texts = texts(Fd i := None)"

text \<open>
  Lines 198-200. The regular files that can be read as text, by path or through an open
  descriptor, are a map from source to text: \<^verbatim>\<open>os.path.isfile\<close> is membership in its
  domain.
\<close>

definition read_token :: "(source \<rightharpoonup> string) \<Rightarrow> battle_tag
    \<Rightarrow> (error + battle_tag) \<times> (source \<rightharpoonup> string)" where
  "read_token texts t =
     (case source_of (api_token_path t) of
        None \<Rightarrow> (Inl TypeError, texts)
      | Some src \<Rightarrow>
          if \<not> fits src then (Inl OverflowError, texts)
          else (case texts src of
                  None \<Rightarrow> (Inl AssertionError, texts)
                | Some s \<Rightarrow> (Inr (t\<lparr>api_token := JStr (strip s)\<rparr>), closed src texts)))"

text \<open>Lines 193-194: the value of the general section, when it has the property.\<close>

definition from_general :: "json \<Rightarrow> string \<Rightarrow> battle_tag \<Rightarrow> error + battle_tag" where
  "from_general config ppty t =
     (case py_get config ''general'' (JArr []) of
        Inl e \<Rightarrow> Inl e
      | Inr gen \<Rightarrow>
          (case contains gen ppty of
             Inl e \<Rightarrow> Inl e
           | Inr False \<Rightarrow> Inr t
           | Inr True \<Rightarrow>
               (case getitem config ''general'' of
                  Inl e \<Rightarrow> Inl e
                | Inr gen' \<Rightarrow>
                    (case getitem gen' ppty of
                       Inl e \<Rightarrow> Inl e
                     | Inr v \<Rightarrow> Inr (setattr t ppty v)))))"

text \<open>
  Lines 195-196: the override is looked up only when the entry is a list that has the
  property name among its elements, and the lookup subscripts the battle_tags value with
  that list.
\<close>

definition from_tag :: "json \<Rightarrow> json \<Rightarrow> string \<Rightarrow> battle_tag \<Rightarrow> error + battle_tag" where
  "from_tag config tag ppty t =
     (case tag of
        JArr xs \<Rightarrow>
          if JStr ppty \<in> set xs then
            (case getitem config ''battle_tags'' of
               Inl e \<Rightarrow> Inl e
             | Inr bt \<Rightarrow>
                 (case getitem_by_list bt xs of
                    Inl e \<Rightarrow> Inl e
                  | Inr entry \<Rightarrow>
                      (case getitem entry ppty of
                         Inl e \<Rightarrow> Inl e
                       | Inr v \<Rightarrow> Inr (setattr t ppty v))))
          else Inr t
      | _ \<Rightarrow> Inr t)"

text \<open>The body of the loop over the property names (lines 193-200).\<close>

definition ppty_step :: "json \<Rightarrow> (source \<rightharpoonup> string) \<Rightarrow> json \<Rightarrow> string \<Rightarrow> battle_tag
    \<Rightarrow> (error + battle_tag) \<times> (source \<rightharpoonup> string)" where
  "ppty_step config texts tag ppty t =
     (case from_general config ppty t of
        Inl e \<Rightarrow> (Inl e, texts)
      | Inr t1 \<Rightarrow>
          (case from_tag config tag ppty t1 of
             Inl e \<Rightarrow> (Inl e, texts)
           | Inr t2 \<Rightarrow>
               if ppty = ''api_token_path'' then read_token texts t2 else (Inr t2, texts)))"

fun ppty_loop :: "json \<Rightarrow> (source \<rightharpoonup> string) \<Rightarrow> json \<Rightarrow> string list \<Rightarrow> battle_tag
    \<Rightarrow> (error + battle_tag) \<times> (source \<rightharpoonup> string)" where
  "ppty_loop config texts tag [] t = (Inr t, texts)"
| "ppty_loop config texts tag (ppty # rest) t =
     (case ppty_step config texts tag ppty t of
        (Inl e, texts1) \<Rightarrow> (Inl e, texts1)
      | (Inr t1, texts1) \<Rightarrow> ppty_loop config texts1 tag rest t1)"

text \<open>The loop over the entries of battle_tags; \<open>acc\<close> is the class attribute battle_tags.\<close>

fun tags_loop :: "json \<Rightarrow> (source \<rightharpoonup> string) \<Rightarrow> json list \<Rightarrow> battle_tag list
    \<Rightarrow> error + battle_tag list" where
  "tags_loop config texts [] acc = Inr acc"
| "tags_loop config texts (tag # tags) acc =
     (case ppty_loop config texts tag PROPERTIES (BattleTag tag) of
        (Inl e, texts1) \<Rightarrow> Inl e
      | (Inr t, texts1) \<Rightarrow> tags_loop config texts1 tags (acc @ [t]))"

definition setup_battle_tags_from_config :: "json \<Rightarrow> (source \<rightharpoonup> string) \<Rightarrow> battle_tag list
    \<Rightarrow> error + battle_tag list" where
  "setup_battle_tags_from_config config texts acc =
     (case contains config ''general'' of
        Inl e \<Rightarrow> Inl e
      | Inr False \<Rightarrow> Inl AssertionError
      | Inr True \<Rightarrow>
          (case py_get config ''battle_tags'' (JArr []) of
             Inl e \<Rightarrow> Inl e
           | Inr bt \<Rightarrow>
               (case py_iter bt of
                  Inl e \<Rightarrow> Inl e
                | Inr tags \<Rightarrow> tags_loop config texts tags acc)))"

text \<open>
  \<^verbatim>\<open>read_config\<close>: the configuration file is absent, or is not YAML (which is logged before
  the exit), or loads to a value.
\<close>

datatype config_file = NoFile | BadYaml | Yaml json

definition read_config :: "config_file \<Rightarrow> world \<Rightarrow> (error + json) \<times> world" where
  "read_config f w =
     (case f of
        NoFile \<Rightarrow> (Inl AssertionError, w)
      | BadYaml \<Rightarrow> (Inl SystemExit, add_log [ErrorYaml] w)
      | Yaml j \<Rightarrow> (Inr j, w))"

text \<open>\<^verbatim>\<open>BattleTags.download_advanced_replays\<close>: the whole process.\<close>

definition BattleTags_download_advanced_replays ::
    "config_file \<Rightarrow> (source \<rightharpoonup> string) \<Rightarrow> remote \<Rightarrow> world \<Rightarrow> (error + unit) \<times> world" where
  "BattleTags_download_advanced_replays f texts R w =
     (case read_config f w of
        (Inl e, w1) \<Rightarrow> (Inl e, w1)
      | (Inr config, w1) \<Rightarrow>
          (case setup_battle_tags_from_config config texts [] of
             Inl e \<Rightarrow> (Inl e, w1)
           | Inr tags \<Rightarrow> fetch_tags R tags w1))"

section \<open>Predicates used in the statements\<close>

text \<open>The two requests of an identity, and the listing requests of one category.\<close>

definition listing_req :: "battle_tag \<Rightarrow> string \<Rightarrow> request" where
  "listing_req t label =
     PlayerReplays (base_url t) (mode t) (region t) label (battletag t) (api_token t)"

definition detail_req :: "battle_tag \<Rightarrow> string \<Rightarrow> request" where
  "detail_req t replay_id = ReplayData (base_url t) (mode t) (api_token t) (JStr replay_id)"

definition is_listing_for :: "string \<Rightarrow> request \<Rightarrow> bool" where
  "is_listing_for label req =
     (case req of
        PlayerReplays b m r l bt k \<Rightarrow> l = label
      | ReplayData b m k i \<Rightarrow> False)"

text \<open>
  The credential token of an identity is the stripped text of the file that its
  credential path (or descriptor number) names.
\<close>

definition token_ok :: "(source \<rightharpoonup> string) \<Rightarrow> battle_tag \<Rightarrow> bool" where
  "token_ok texts t =
     (case source_of (api_token_path t) of
        Some src \<Rightarrow> (case texts src of Some s \<Rightarrow> api_token t = JStr (strip s) | None \<Rightarrow> False)
      | None \<Rightarrow> False)"

text \<open>The credential path of an identity is the one of the general section.\<close>

definition path_from_general :: "json \<Rightarrow> battle_tag \<Rightarrow> bool" where
  "path_from_general config t =
     (case getitem config ''general'' of
        Inr gen \<Rightarrow> getitem gen ''api_token_path'' = Inr (api_token_path t)
      | Inl e \<Rightarrow> False)"

text \<open>
  The record set that lines 96-102 load from the advanced cache file: the empty dict for
  an absent or empty file, the parsed value otherwise; nothing for a directory or a text
  that does not parse.
\<close>

definition adv_records :: "node option \<Rightarrow> json option" where
  "adv_records n =
     (case n of
        None \<Rightarrow> Some (JObj [])
      | Some (File Blank) \<Rightarrow> Some (JObj [])
      | Some (File (Doc j)) \<Rightarrow> Some j
      | _ \<Rightarrow> None)"

text \<open>
  The world in which the loop over the identifiers starts (line 112): the step has been
  announced in the log, and the advanced file has been emptied by line 105.
\<close>

definition loop_start :: "string \<Rightarrow> string \<Rightarrow> world \<Rightarrow> world" where
  "loop_start username g w =
     write_file (adv_file username g) Blank (add_log [InfoDownloadingAdvanced username g] w)"

text \<open>
  What a detail response contributes for an identifier: the value under that identifier
  in the body of a response with status 200.
\<close>

definition record_of :: "response \<Rightarrow> string \<Rightarrow> json option" where
  "record_of resp replay_id =
     (case resp of
        Response status (JsonBody j) \<Rightarrow>
          (if status = 200
           then (case getitem j replay_id of Inr v \<Rightarrow> Some v | Inl e \<Rightarrow> None)
           else None)
      | _ \<Rightarrow> None)"

definition fetched_record :: "(request \<Rightarrow> response) \<Rightarrow> battle_tag \<Rightarrow> string \<Rightarrow> string \<times> json" where
  "fetched_record r t replay_id =
     (replay_id,
      case record_of (r (detail_req t replay_id)) replay_id of Some v \<Rightarrow> v | None \<Rightarrow> JNull)"

text \<open>
  The identifiers that the listing file of a category holds under the label: what the
  loop of line 112 iterates over. A file that is absent, does not parse, or holds a value
  that cannot be subscripted and iterated so, lists nothing.
\<close>

definition listed_ids :: "node option \<Rightarrow> string \<Rightarrow> json list" where
  "listed_ids n label =
     (case n of
        Some (File (Doc b)) \<Rightarrow>
          (case getitem b label of
             Inr listing \<Rightarrow> (case py_iter listing of Inr ids \<Rightarrow> ids | Inl e \<Rightarrow> [])
           | Inl e \<Rightarrow> [])
      | _ \<Rightarrow> [])"

text \<open>
  The subset invariant of one category: the advanced file is absent or empty, or it
  holds an object whose every key is one of the listed identifiers.
\<close>

definition keys_listed :: "node option \<Rightarrow> json list \<Rightarrow> bool" where
  "keys_listed n ids =
     (case n of
        None \<Rightarrow> True
      | Some (File Blank) \<Rightarrow> True
      | Some (File (Doc (JObj kvs))) \<Rightarrow> list_all (\<lambda>k. JStr k \<in> set ids) (map fst kvs)
      | _ \<Rightarrow> False)"

definition subset_inv :: "(string \<rightharpoonup> node) \<Rightarrow> string \<Rightarrow> string \<Rightarrow> string \<Rightarrow> bool" where
  "subset_inv fs username g label =
     keys_listed (fs (adv_file username g)) (listed_ids (fs (base_file username g)) label)"

text \<open>
  A sequence of fetches, each of one identity against its own remote, every one starting
  in the world that the one before left, however that one ended.
\<close>

fun runs :: "(remote \<times> battle_tag) list \<Rightarrow> world \<Rightarrow> world" where
  "runs [] w = w"
| "runs ((R, t) # rts) w = runs rts (snd (fetch_tag R t w))"

fun is_str :: "json \<Rightarrow> bool" where
  "is_str (JStr s) = True"
| "is_str v = False"

text \<open>
  A detail request that the remote refuses (a response whose status is not 200), and a
  log entry that reports downloaded records.
\<close>

definition refused :: "(request \<Rightarrow> response) \<Rightarrow> request \<Rightarrow> bool" where
  "refused r q =
     (case q of
        ReplayData b m k i \<Rightarrow>
          (case r q of Response st bd \<Rightarrow> st \<noteq> 200 | ConnectionFailed \<Rightarrow> False)
      | PlayerReplays b m rg l bt k \<Rightarrow> False)"

definition reports_download :: "event \<Rightarrow> bool" where
  "reports_download e = (case e of InfoAdvancedDownloaded n \<Rightarrow> True | _ \<Rightarrow> False)"

text \<open>
  A record set is stable for a list of identifiers when the loop has nothing to add to
  it: every identifier is in the set, up to the first one that is not, whose request the
  remote refuses.
\<close>

fun stable :: "(request \<Rightarrow> response) \<Rightarrow> battle_tag \<Rightarrow> json list \<Rightarrow> adv_json \<Rightarrow> bool" where
  "stable r t [] a = True"
| "stable r t (rid # rest) a =
     (case member a rid of
        Inr True \<Rightarrow> stable r t rest a
      | Inr False \<Rightarrow> refused r (ReplayData (base_url t) (mode t) (api_token t) rid)
      | Inl e \<Rightarrow> False)"

text \<open>
  The two cache files of a category are settled: both parse, and the listing is empty
  or the record set is stable for the identifiers it lists.
\<close>

definition settled_nodes :: "(request \<Rightarrow> response) \<Rightarrow> battle_tag \<Rightarrow> string \<Rightarrow> node option
    \<Rightarrow> node option \<Rightarrow> bool" where
  "settled_nodes r t label nb na =
     (case nb of
        Some (File (Doc b)) \<Rightarrow>
          (case na of
             Some (File (Doc a)) \<Rightarrow>
               (if truthy b
                then (case getitem b label of
                        Inr listing \<Rightarrow>
                          (case py_iter listing of
                             Inr ids \<Rightarrow> stable r t ids (loaded a)
                           | Inl e \<Rightarrow> False)
                      | Inl e \<Rightarrow> False)
                else True)
           | _ \<Rightarrow> False)
      | _ \<Rightarrow> False)"

definition settled :: "(request \<Rightarrow> response) \<Rightarrow> battle_tag \<Rightarrow> (string \<rightharpoonup> node) \<Rightarrow> string
    \<Rightarrow> string \<times> string \<Rightarrow> bool" where
  "settled r t fs username gl =
     settled_nodes r t (snd gl) (fs (base_file username (fst gl)))
       (fs (adv_file username (fst gl)))"

text \<open>
  What one step of a fetch does to the cache files of a category, seen from any other
  step: a listing file that is there stays as it is, and when the identifiers that the
  listing file ends up with are strings, the subset invariant is passed on.
\<close>

definition carried :: "string \<Rightarrow> string \<Rightarrow> string \<Rightarrow> (string \<rightharpoonup> node) \<Rightarrow> (string \<rightharpoonup> node)
    \<Rightarrow> bool" where
  "carried username g label fs fs' =
     ((case fs (base_file username g) of
         Some (File c) \<Rightarrow> fs' (base_file username g) = Some (File c)
       | _ \<Rightarrow> True) \<and>
      (list_all is_str (listed_ids (fs' (base_file username g)) label) \<and>
       subset_inv fs username g label \<longrightarrow> subset_inv fs' username g label))"

text \<open>The identifiers listed in the listing files of an identity are all strings.\<close>

definition string_ids :: "battle_tag \<Rightarrow> (string \<rightharpoonup> node) \<Rightarrow> bool" where
  "string_ids t fs =
     (case username_of t of
        Inl e \<Rightarrow> False
      | Inr username \<Rightarrow>
          list_all (\<lambda>gl. list_all is_str (listed_ids (fs (base_file username (fst gl))) (snd gl)))
            GAME_TYPES)"

section \<open>Scenarios\<close>

text \<open>An identity with handle \<^verbatim>\<open>n#1\<close> (so the cache lives under \<^verbatim>\<open>n/\<close>), and a world without files.\<close>

definition tag1 :: battle_tag where
  "tag1 = (BattleTag (JStr ''n#1''))\<lparr>api_token := JStr ''k'', base_url := JStr ''h''\<rparr>"

definition no_files :: world where
  "no_files = \<lparr>files = Map.empty, trace = [], log = []\<rparr>"

text \<open>A world whose only file is the listing of quick matches, holding \<^verbatim>\<open>{}\<close>.\<close>

definition qm_listed_empty :: world where
  "qm_listed_empty = write_file (base_file ''n'' ''qm'') (Doc (JObj [])) no_files"

text \<open>
  A remote that lists the replays \<^verbatim>\<open>a\<close> and \<^verbatim>\<open>b\<close> as quick matches and nothing elsewhere, and
  answers a detail request with the given status and a body that holds the identifier.
\<close>

fun remote_ab :: "int \<Rightarrow> int \<Rightarrow> request \<Rightarrow> response" where
  "remote_ab sa sb (PlayerReplays b m r l bt k) =
     (if l = ''Quick Match''
      then Response 200 (JsonBody (JObj [(''Quick Match'', JArr [JStr ''a'', JStr ''b''])]))
      else Response 200 (JsonBody (JObj [])))"
| "remote_ab sa sb (ReplayData b m k i) =
     (case i of
        JStr s \<Rightarrow>
          Response (if s = ''a'' then sa else sb)
            (JsonBody (JObj [(s, JStr (''payload of '' @ s))]))
      | _ \<Rightarrow> Response 404 NotJson)"

text \<open>
  A remote that lists the one replay 0, a number, as quick match and nothing elsewhere,
  and answers every detail request with status 200 and a list that holds one payload.
\<close>

fun remote_numbered :: "request \<Rightarrow> response" where
  "remote_numbered (PlayerReplays b m r l bt k) =
     (if l = ''Quick Match''
      then Response 200 (JsonBody (JObj [(''Quick Match'', JArr [JInt 0])]))
      else Response 200 (JsonBody (JObj [])))"
| "remote_numbered (ReplayData b m k i) = Response 200 (JsonBody (JArr [JStr ''payload'']))"

text \<open>
  A world whose only files are the two cache files of quick matches: the listing holds
  the first value, the advanced record set the second.
\<close>

definition qm_world :: "json \<Rightarrow> json \<Rightarrow> world" where
  "qm_world listing adv =
     write_file (adv_file ''n'' ''qm'') (Doc adv)
       (write_file (base_file ''n'' ''qm'') (Doc listing) no_files)"

definition listing_ab :: json where
  "listing_ab = JObj [(''Quick Match'', JArr [JStr ''a'', JStr ''b''])]"

definition cached_x :: json where
  "cached_x = JObj [(''x'', JInt 1)]"

text \<open>A remote that cannot be reached, and one that answers every request alike.\<close>

definition remote_down :: remote where
  "remote_down h req = ConnectionFailed"

definition remote_const :: "int \<Rightarrow> json \<Rightarrow> remote" where
  "remote_const status j h req = Response status (JsonBody j)"

section \<open>Properties of the configuration pass\<close>

subsection \<open>Missing sections\<close>

text \<open>
  Claim C8, as the code has it. A configuration mapping without the key \<^verbatim>\<open>general\<close> fails
  the assertion of line 182, and the process ends before any fetching: the world is
  untouched. A mapping that has \<^verbatim>\<open>general\<close> and no \<^verbatim>\<open>battle_tags\<close> is not an error: line 183
  defaults the entries to the empty list, no identity is added, and the process ends
  normally, again without touching the world.
\<close>

theorem C8_general_fatal_battle_tags_optional:
  "(''general'' \<notin> set (map fst kvs) \<longrightarrow>
      setup_battle_tags_from_config (JObj kvs) texts acc = Inl AssertionError \<and>
      BattleTags_download_advanced_replays (Yaml (JObj kvs)) texts R w = (Inl AssertionError, w)) \<and>
   (''general'' \<in> set (map fst kvs) \<and> ''battle_tags'' \<notin> set (map fst kvs) \<longrightarrow>
      setup_battle_tags_from_config (JObj kvs) texts acc = Inr acc \<and>
      BattleTags_download_advanced_replays (Yaml (JObj kvs)) texts R w = (Inr (), w))"
  by (auto simp: setup_battle_tags_from_config_def BattleTags_download_advanced_replays_def
      read_config_def map_of_eq_None_iff [THEN iffD2])

theorem C8_general_fatal_battle_tags_optional_witness:
  "''general'' \<notin> set (map fst ([] :: (string \<times> json) list)) \<and>
   setup_battle_tags_from_config (JObj []) Map.empty [] = Inl AssertionError \<and>
   ''general'' \<in> set (map fst [(''general'', JObj [])]) \<and>
   ''battle_tags'' \<notin> set (map fst [(''general'', JObj [])]) \<and>
   setup_battle_tags_from_config (JObj [(''general'', JObj [])]) Map.empty [] = Inr []"
  using C8_general_fatal_battle_tags_optional
      [of "[]" Map.empty "[]" "\<lambda>h r. ConnectionFailed"
          "\<lparr>files = Map.empty, trace = [], log = []\<rparr>"]
    C8_general_fatal_battle_tags_optional
      [of "[(''general'', JObj [])]" Map.empty "[]" "\<lambda>h r. ConnectionFailed"
          "\<lparr>files = Map.empty, trace = [], log = []\<rparr>"]
  by simp

text \<open>
  The claim as written fails: with a \<^verbatim>\<open>general\<close> section and no \<^verbatim>\<open>battle_tags\<close> key the
  process returns normally.
\<close>

theorem C8_missing_battle_tags_counterexample:
  "''battle_tags'' \<notin> set (map fst [(''general'', JObj [])]) \<and>
   fst (BattleTags_download_advanced_replays (Yaml (JObj [(''general'', JObj [])])) Map.empty
      (\<lambda>h r. ConnectionFailed) \<lparr>files = Map.empty, trace = [], log = []\<rparr>) = Inr ()"
  by (simp add: setup_battle_tags_from_config_def BattleTags_download_advanced_replays_def
      read_config_def)

subsection \<open>The credential token\<close>

lemma setattr_other:
  "ppty \<noteq> ''api_token_path'' \<Longrightarrow>
   api_token_path (setattr t ppty v) = api_token_path t \<and>
   api_token (setattr t ppty v) = api_token t"
  by (simp add: setattr_def)

text \<open>Reading a token only ever closes descriptors: no text appears or changes.\<close>

lemma closed_le: "closed src texts \<subseteq>\<^sub>m texts"
  by (cases src) (auto simp: map_le_def)

lemma read_token_le: "read_token texts t = (r, texts') \<Longrightarrow> texts' \<subseteq>\<^sub>m texts"
  by (auto simp: read_token_def closed_le split: option.splits if_splits)

lemma token_ok_le: "token_ok texts' t \<Longrightarrow> texts' \<subseteq>\<^sub>m texts \<Longrightarrow> token_ok texts t"
  by (auto simp: token_ok_def map_le_def dom_def split: option.splits)

lemma read_token_ok: "read_token texts t = (Inr t', texts') \<Longrightarrow> token_ok texts t'"
  by (auto simp: read_token_def token_ok_def split: option.splits if_splits)

lemma token_ok_cong:
  "api_token_path t' = api_token_path t \<Longrightarrow> api_token t' = api_token t \<Longrightarrow>
   token_ok texts t' = token_ok texts t"
  by (simp add: token_ok_def split: option.splits)

lemma from_general_other:
  "from_general config ppty t = Inr t' \<Longrightarrow> ppty \<noteq> ''api_token_path'' \<Longrightarrow>
   api_token_path t' = api_token_path t \<and> api_token t' = api_token t"
  by (auto simp: from_general_def setattr_other split: sum.splits bool.splits)

text \<open>The override branch never returns normally with a changed identity.\<close>

lemma from_tag_same: "from_tag config tag ppty t = Inr t' \<Longrightarrow> t' = t"
  by (auto simp: from_tag_def getitem_by_list_def split: json.splits sum.splits if_splits)

lemma ppty_step_other:
  "ppty_step config texts tag ppty t = (Inr t', texts') \<Longrightarrow> ppty \<noteq> ''api_token_path'' \<Longrightarrow>
   api_token_path t' = api_token_path t \<and> api_token t' = api_token t \<and> texts' = texts"
  by (auto simp: ppty_step_def split: sum.splits dest!: from_general_other from_tag_same)

lemma ppty_step_first:
  "ppty_step config texts tag ''api_token_path'' t = (Inr t', texts') \<Longrightarrow>
   token_ok texts t' \<and> texts' \<subseteq>\<^sub>m texts"
  by (auto simp: ppty_step_def split: sum.splits dest: read_token_ok read_token_le)

lemma ppty_loop_other:
  "ppty_loop config texts tag ps t = (Inr t', texts') \<Longrightarrow> ''api_token_path'' \<notin> set ps \<Longrightarrow>
   api_token_path t' = api_token_path t \<and> api_token t' = api_token t \<and> texts' = texts"
proof (induction ps arbitrary: t texts)
  case Nil
  then show ?case by simp
next
  case (Cons p ps)
  from Cons.prems(1) obtain t1 texts1 where s: "ppty_step config texts tag p t = (Inr t1, texts1)"
    and r: "ppty_loop config texts1 tag ps t1 = (Inr t', texts')"
    by (auto split: sum.splits prod.splits)
  from Cons.prems(2) have "p \<noteq> ''api_token_path''" "''api_token_path'' \<notin> set ps" by auto
  with ppty_step_other [OF s] Cons.IH [OF r] show ?case by simp
qed

lemma ppty_loop_rest:
  "ppty_loop config texts tag [''base_url'', ''mode'', ''region'', ''game_type''] t = (Inr t', texts')
   \<Longrightarrow> api_token_path t' = api_token_path t \<and> api_token t' = api_token t \<and> texts' = texts"
  using ppty_loop_other
    [of config texts tag "[''base_url'', ''mode'', ''region'', ''game_type'']" t t' texts']
  by simp

lemma ppty_loop_ok:
  assumes a: "ppty_loop config texts tag PROPERTIES t = (Inr t', texts')"
  shows "token_ok texts t' \<and> texts' \<subseteq>\<^sub>m texts"
proof -
  from a obtain t1 texts1 where
    s1: "ppty_step config texts tag ''api_token_path'' t = (Inr t1, texts1)" and
    r1: "ppty_loop config texts1 tag [''base_url'', ''mode'', ''region'', ''game_type''] t1
           = (Inr t', texts')"
    by (auto simp: PROPERTIES_def split: sum.splits prod.splits)
  from ppty_loop_rest [OF r1]
  have "api_token_path t' = api_token_path t1" "api_token t' = api_token t1" "texts' = texts1"
    by simp_all
  with ppty_step_first [OF s1] token_ok_cong [of t' t1 texts] show ?thesis by simp
qed

lemma tags_loop_ok:
  "tags_loop config texts' tags acc = Inr ts \<Longrightarrow> texts' \<subseteq>\<^sub>m texts \<Longrightarrow>
   (\<And>t. t \<in> set acc \<Longrightarrow> token_ok texts t) \<Longrightarrow> t \<in> set ts \<Longrightarrow> token_ok texts t"
proof (induction tags arbitrary: acc texts')
  case Nil
  then show ?case by simp
next
  case (Cons tag tags)
  from Cons.prems(1) obtain t1 texts1 where
    s: "ppty_loop config texts' tag PROPERTIES (BattleTag tag) = (Inr t1, texts1)" and
    r: "tags_loop config texts1 tags (acc @ [t1]) = Inr ts"
    by (auto split: sum.splits prod.splits)
  from ppty_loop_ok [OF s] have ok: "token_ok texts' t1" and le: "texts1 \<subseteq>\<^sub>m texts'"
    by simp_all
  from le Cons.prems(2) have le': "texts1 \<subseteq>\<^sub>m texts" by (rule map_le_trans)
  have "\<And>x. x \<in> set (acc @ [t1]) \<Longrightarrow> token_ok texts x"
    using Cons.prems(3) token_ok_le [OF ok Cons.prems(2)] by auto
  from Cons.IH [OF r le' this Cons.prems(4)] show ?case .
qed

text \<open>
  Claim C9, as the code has it. Every identity of a successful pass has a credential path
  that \<^verbatim>\<open>os.path.isfile\<close> and \<^verbatim>\<open>open\<close> resolve to a readable regular file (a path string, or
  the number of an open descriptor), and its token is the text read from that file with
  the leading and trailing whitespace removed. Nothing requires the token to be
  non-empty.
\<close>

theorem C9_token_is_stripped_file:
  assumes "setup_battle_tags_from_config config texts [] = Inr ts" and "t \<in> set ts"
  shows "\<exists>src s. source_of (api_token_path t) = Some src \<and> texts src = Some s \<and>
           api_token t = JStr (strip s)"
proof -
  from assms(1) obtain tags where "tags_loop config texts tags [] = Inr ts"
    by (auto simp: setup_battle_tags_from_config_def split: sum.splits bool.splits)
  from tags_loop_ok [OF this map_le_refl _ assms(2)] have "token_ok texts t" by simp
  then show ?thesis by (auto simp: token_ok_def split: option.splits)
qed

theorem C9_token_is_stripped_file_witness:
  "setup_battle_tags_from_config
     (JObj [(''general'', JObj [(''api_token_path'', JStr ''/a'')]),
            (''battle_tags'', JArr [JStr ''n#1''])])
     [Path ''/a'' \<mapsto> '' tok ''] [] =
   Inr [(BattleTag (JStr ''n#1''))\<lparr>api_token := JStr ''tok'', api_token_path := JStr ''/a''\<rparr>] \<and>
   (\<exists>src s. source_of (api_token_path
            ((BattleTag (JStr ''n#1''))\<lparr>api_token := JStr ''tok'', api_token_path := JStr ''/a''\<rparr>))
            = Some src \<and>
          [Path ''/a'' \<mapsto> '' tok ''] src = Some s \<and>
          api_token
            ((BattleTag (JStr ''n#1''))\<lparr>api_token := JStr ''tok'', api_token_path := JStr ''/a''\<rparr>)
            = JStr (strip s))"
proof -
  have e: "setup_battle_tags_from_config
     (JObj [(''general'', JObj [(''api_token_path'', JStr ''/a'')]),
            (''battle_tags'', JArr [JStr ''n#1''])])
     [Path ''/a'' \<mapsto> '' tok ''] [] =
   Inr [(BattleTag (JStr ''n#1''))\<lparr>api_token := JStr ''tok'', api_token_path := JStr ''/a''\<rparr>]"
    by code_simp
  from C9_token_is_stripped_file [OF e] e show ?thesis by simp
qed

text \<open>
  The claim as written fails: a credential file that holds only whitespace resolves, and
  the token is the empty string.
\<close>

theorem C9_empty_token_counterexample:
  "setup_battle_tags_from_config
     (JObj [(''general'', JObj [(''api_token_path'', JStr ''/a'')]),
            (''battle_tags'', JArr [JStr ''n#1''])])
     [Path ''/a'' \<mapsto> '' ''] [] =
   Inr [(BattleTag (JStr ''n#1''))\<lparr>api_token := JStr [], api_token_path := JStr ''/a''\<rparr>]"
  by code_simp

text \<open>
  A credential path that is a number names an open descriptor. The first identity reads
  its token from it, and the \<^verbatim>\<open>with\<close> block closes it: with a second identity the assertion
  of line 198 fails.
\<close>

lemma token_from_descriptor:
  "setup_battle_tags_from_config
     (JObj [(''general'', JObj [(''api_token_path'', JInt 0)]),
            (''battle_tags'', JArr [JStr ''n#1''])])
     [Fd 0 \<mapsto> '' tok ''] [] =
   Inr [(BattleTag (JStr ''n#1''))\<lparr>api_token := JStr ''tok'', api_token_path := JInt 0\<rparr>] \<and>
   setup_battle_tags_from_config
     (JObj [(''general'', JObj [(''api_token_path'', JInt 0)]),
            (''battle_tags'', JArr [JStr ''n#1'', JStr ''m#2''])])
     [Fd 0 \<mapsto> '' tok ''] [] = Inl AssertionError"
  by code_simp

subsection \<open>Per-identity overrides\<close>

lemma read_token_path:
  "read_token texts t = (Inr t', texts') \<Longrightarrow>
   api_token_path t' = api_token_path t \<and> api_token_path t \<noteq> JNull"
  by (auto simp: read_token_def split: option.splits if_splits)

lemma from_general_path:
  "from_general config ''api_token_path'' t = Inr t' \<Longrightarrow> api_token_path t = JNull \<Longrightarrow>
   api_token_path t' \<noteq> JNull \<Longrightarrow> path_from_general config t'"
  by (auto simp: from_general_def path_from_general_def setattr_def
      split: sum.splits bool.splits)

lemma path_from_general_cong:
  "api_token_path t' = api_token_path t \<Longrightarrow>
   path_from_general config t' = path_from_general config t"
  by (simp add: path_from_general_def split: sum.splits)

lemma ppty_step_first_path:
  assumes "ppty_step config texts tag ''api_token_path'' t = (Inr t', texts')"
    and "api_token_path t = JNull"
  shows "path_from_general config t'"
proof -
  from assms(1) obtain t1 where g: "from_general config ''api_token_path'' t = Inr t1"
    and r: "read_token texts t1 = (Inr t', texts')"
    by (auto simp: ppty_step_def split: sum.splits dest!: from_tag_same)
  from read_token_path [OF r]
  have "api_token_path t' = api_token_path t1" "api_token_path t1 \<noteq> JNull"
    by simp_all
  with from_general_path [OF g assms(2)] path_from_general_cong [of t' t1 config]
  show ?thesis by simp
qed

lemma ppty_loop_path:
  assumes a: "ppty_loop config texts tag PROPERTIES (BattleTag tag) = (Inr t', texts')"
  shows "path_from_general config t'"
proof -
  from a obtain t1 texts1 where
    s1: "ppty_step config texts tag ''api_token_path'' (BattleTag tag) = (Inr t1, texts1)"
    and r1: "ppty_loop config texts1 tag [''base_url'', ''mode'', ''region'', ''game_type''] t1
               = (Inr t', texts')"
    by (auto simp: PROPERTIES_def split: sum.splits prod.splits)
  have "api_token_path (BattleTag tag) = JNull" by (simp add: BattleTag_def)
  from ppty_step_first_path [OF s1 this] ppty_loop_rest [OF r1]
    path_from_general_cong [of t' t1 config]
  show ?thesis by simp
qed

lemma tags_loop_path:
  "tags_loop config texts tags acc = Inr ts \<Longrightarrow>
   (\<And>t. t \<in> set acc \<Longrightarrow> path_from_general config t) \<Longrightarrow>
   t \<in> set ts \<Longrightarrow> path_from_general config t"
proof (induction tags arbitrary: acc texts)
  case Nil
  then show ?case by simp
next
  case (Cons tag tags)
  from Cons.prems(1) obtain t1 texts1 where
    s: "ppty_loop config texts tag PROPERTIES (BattleTag tag) = (Inr t1, texts1)" and
    r: "tags_loop config texts1 tags (acc @ [t1]) = Inr ts"
    by (auto split: sum.splits prod.splits)
  have "\<And>x. x \<in> set (acc @ [t1]) \<Longrightarrow> path_from_general config x"
    using Cons.prems(2) ppty_loop_path [OF s] by auto
  from Cons.IH [OF r this Cons.prems(3)] show ?case .
qed

text \<open>
  Whatever the configuration, the credential path of a resolved identity is the one of
  the general section: no entry of battle_tags changes it.
\<close>

lemma override_never_applies:
  assumes "setup_battle_tags_from_config config texts [] = Inr ts" and "t \<in> set ts"
  shows "path_from_general config t"
proof -
  from assms(1) obtain tags where "tags_loop config texts tags [] = Inr ts"
    by (auto simp: setup_battle_tags_from_config_def split: sum.splits bool.splits)
  from tags_loop_path [OF this _ assms(2)] show ?thesis by simp
qed

text \<open>
  Claim C7 at its scenario: the general section gives \<^verbatim>\<open>api_token_path=/a\<close>, the entry of
  the identity gives \<^verbatim>\<open>api_token_path=/b\<close>. With battle_tags a mapping from handle to
  override block the loop sees the handle only, and the token is read from \<^verbatim>\<open>/a\<close>. With the
  entry a list that holds the property name, line 196 subscripts a list with a list and
  the pass ends with TypeError.
\<close>

theorem C7_override_not_applied:
  "setup_battle_tags_from_config
     (JObj [(''general'', JObj [(''api_token_path'', JStr ''/a'')]),
            (''battle_tags'', JObj [(''n#1'', JObj [(''api_token_path'', JStr ''/b'')])])])
     [Path ''/a'' \<mapsto> ''ta'', Path ''/b'' \<mapsto> ''tb''] [] =
   Inr [(BattleTag (JStr ''n#1''))\<lparr>api_token := JStr ''ta'', api_token_path := JStr ''/a''\<rparr>] \<and>
   setup_battle_tags_from_config
     (JObj [(''general'', JObj [(''api_token_path'', JStr ''/a'')]),
            (''battle_tags'', JArr [JArr [JStr ''n#1'', JStr ''api_token_path'', JStr ''/b'']])])
     [Path ''/a'' \<mapsto> ''ta'', Path ''/b'' \<mapsto> ''tb''] [] = Inl TypeError"
  by code_simp

section \<open>Properties of the replay fetcher\<close>

subsection \<open>The world operations and the cache paths\<close>

lemma files_ops [simp]:
  "files (send req w) = files w"
  "files (add_log es w) = files w"
  "files (write_file p c w) = (files w)(p \<mapsto> File c)"
  by (simp_all add: send_def add_log_def write_file_def)

lemma trace_ops [simp]:
  "trace (send req w) = trace w @ [req]"
  "trace (add_log es w) = trace w"
  "trace (write_file p c w) = trace w"
  by (simp_all add: send_def add_log_def write_file_def)

lemma log_ops [simp]:
  "log (send req w) = log w"
  "log (add_log es w) = log w @ es"
  "log (write_file p c w) = log w"
  by (simp_all add: send_def add_log_def write_file_def)

lemma cache_paths [simp]:
  "base_file u g \<noteq> adv_file u g'"
  "adv_file u g \<noteq> base_file u g'"
  "(base_file u g = base_file u g') = (g = g')"
  "(adv_file u g = adv_file u g') = (g = g')"
  "base_file u g \<noteq> u @ ''/base''"
  "base_file u g \<noteq> u @ ''/advanced''"
  "adv_file u g \<noteq> u @ ''/base''"
  "adv_file u g \<noteq> u @ ''/advanced''"
  by (simp_all add: base_file_def adv_file_def)

lemma makedirs_files:
  "makedirs d w = (r, w') \<Longrightarrow> p \<noteq> d \<Longrightarrow> files w' p = files w p"
  by (auto simp: makedirs_def split: option.splits node.splits)

lemma makedirs_trace: "makedirs d w = (r, w') \<Longrightarrow> trace w' = trace w \<and> log w' = log w"
  by (auto simp: makedirs_def split: option.splits node.splits)

subsection \<open>Phase 1 leaves an existing listing alone\<close>

lemma fetch_base_frame:
  "fetch_base R t u g l w = (r, w') \<Longrightarrow>
   (\<forall>p. p \<noteq> base_file u g \<longrightarrow> files w' p = files w p) \<and>
   trace w' = trace w @ [listing_req t l]"
  by (auto simp: fetch_base_def listing_req_def Let_def
      split: response.splits if_splits option.splits node.splits body.splits)

lemma verify_base_frame:
  "verify_base u g w = (r, w') \<Longrightarrow> files w' = files w \<and> trace w' = trace w"
  by (auto simp: verify_base_def split: option.splits node.splits content.splits)

lemma base_step_present_eq:
  "files w (base_file u g) = Some (File c) \<Longrightarrow> base_step R t u g l w = verify_base u g w"
  by (simp add: base_step_def)

lemma base_step_absent_eq:
  "\<not> (\<exists>c. files w (base_file u g) = Some (File c)) \<Longrightarrow>
   base_step R t u g l w =
     (case fetch_base R t u g l w of
        (Inl e, w1) \<Rightarrow> (Inl e, w1)
      | (Inr x, w1) \<Rightarrow> verify_base u g w1)"
  by (auto simp: base_step_def split: option.splits node.splits)

lemma base_step_present:
  "files w (base_file u g) = Some (File c) \<Longrightarrow> base_step R t u g l w = (r, w') \<Longrightarrow>
   files w' = files w \<and> trace w' = trace w"
  by (auto simp: base_step_present_eq dest: verify_base_frame)

lemma base_step_frame:
  assumes "base_step R t u g l w = (r, w')"
  shows "(\<forall>p. p \<noteq> base_file u g \<longrightarrow> files w' p = files w p) \<and>
         (trace w' = trace w \<or> trace w' = trace w @ [listing_req t l])"
proof (cases "\<exists>c. files w (base_file u g) = Some (File c)")
  case True
  with assms base_step_present show ?thesis by fastforce
next
  case False
  obtain r1 w1 where e: "fetch_base R t u g l w = (r1, w1)" by (cases "fetch_base R t u g l w")
  show ?thesis
  proof (cases r1)
    case (Inl err)
    with assms e base_step_absent_eq [OF False, of R t l] have "w' = w1" by simp
    with fetch_base_frame [OF e] show ?thesis by simp
  next
    case (Inr x)
    with assms e base_step_absent_eq [OF False, of R t l]
    have "verify_base u g w1 = (r, w')" by simp
    from verify_base_frame [OF this] fetch_base_frame [OF e] show ?thesis by simp
  qed
qed

lemma is_listing_for_req [simp]: "is_listing_for l (listing_req t l') = (l' = l)"
  by (simp add: is_listing_for_def listing_req_def)

lemma base_step_keeps:
  assumes s: "base_step R t u g1 l1 w = (r, w1)"
    and f: "files w (base_file u g) = Some (File c)"
    and d: "g1 \<noteq> g \<Longrightarrow> l1 \<noteq> l"
  shows "files w1 (base_file u g) = Some (File c) \<and>
         (\<exists>new. trace w1 = trace w @ new \<and> filter (is_listing_for l) new = [])"
proof (cases "g1 = g")
  case True
  with base_step_present [OF _ s] f show ?thesis by simp
next
  case False
  from base_step_frame [OF s] False f have k: "files w1 (base_file u g) = Some (File c)"
    by simp
  from base_step_frame [OF s]
  have "trace w1 = trace w @ [] \<or> trace w1 = trace w @ [listing_req t l1]" by simp
  then have "\<exists>new. trace w1 = trace w @ new \<and> filter (is_listing_for l) new = []"
  proof
    assume "trace w1 = trace w @ []"
    then show ?thesis by (intro exI [of _ "[]"]) simp
  next
    assume "trace w1 = trace w @ [listing_req t l1]"
    with d [OF False] show ?thesis by (intro exI [of _ "[listing_req t l1]"]) simp
  qed
  with k show ?thesis by simp
qed

lemma base_loop_keeps:
  "base_loop R t u gls w = (r, w') \<Longrightarrow> files w (base_file u g) = Some (File c) \<Longrightarrow>
   (\<And>g' l'. (g', l') \<in> set gls \<Longrightarrow> g' \<noteq> g \<Longrightarrow> l' \<noteq> l) \<Longrightarrow>
   files w' (base_file u g) = Some (File c) \<and>
   (\<exists>new. trace w' = trace w @ new \<and> filter (is_listing_for l) new = [])"
proof (induction gls arbitrary: w)
  case Nil
  then show ?case by simp
next
  case (Cons gl gls)
  obtain g1 l1 where gl: "gl = (g1, l1)" by (cases gl)
  obtain r1 w1 where s: "base_step R t u g1 l1 w = (r1, w1)"
    by (cases "base_step R t u g1 l1 w")
  have "g1 \<noteq> g \<Longrightarrow> l1 \<noteq> l" using Cons.prems(3) [of g1 l1] gl by simp
  from base_step_keeps [OF s Cons.prems(2) this] obtain n1 where
    k1: "files w1 (base_file u g) = Some (File c)" and t1: "trace w1 = trace w @ n1" and
    s1: "filter (is_listing_for l) n1 = []"
    by blast
  show ?case
  proof (cases r1)
    case (Inl e)
    with Cons.prems(1) s gl have "w' = w1" by simp
    with k1 t1 s1 show ?thesis by simp
  next
    case (Inr x)
    with Cons.prems(1) s gl have "base_loop R t u gls w1 = (r, w')" by simp
    from Cons.IH [OF this k1] Cons.prems(3) obtain n2 where
      k2: "files w' (base_file u g) = Some (File c)" and t2: "trace w' = trace w1 @ n2" and
      s2: "filter (is_listing_for l) n2 = []"
      by auto
    from t1 t2 have "trace w' = trace w @ (n1 @ n2)" by simp
    moreover from s1 s2 have "filter (is_listing_for l) (n1 @ n2) = []" by simp
    ultimately show ?thesis using k2 by blast
  qed
qed

lemma GAME_TYPES_labels:
  "(g, l) \<in> set GAME_TYPES \<Longrightarrow> (g', l') \<in> set GAME_TYPES \<Longrightarrow> g' \<noteq> g \<Longrightarrow> l' \<noteq> l"
  by (auto simp: GAME_TYPES_def)

text \<open>
  Claim C4. When the listing file of a category is a regular file at the start of Phase 1,
  whatever it holds, then whatever the remote answers and however the phase ends, the
  file holds the same at the end and none of the requests that the phase issued is a
  listing request for that category. In the step of a category whose path holds no
  regular file, the listing request of that category is issued.
\<close>

theorem C4_listing_fetched_once:
  assumes "username_of t = Inr u" and "(g, label) \<in> set GAME_TYPES"
    and "files w (base_file u g) = Some (File c)"
  shows "files (snd (download_base_replays R t w)) (base_file u g) = Some (File c) \<and>
         filter (is_listing_for label)
           (drop (length (trace w)) (trace (snd (download_base_replays R t w)))) = [] \<and>
         trace (snd (base_step R t u g label w)) = trace w \<and>
         files (snd (base_step R t u g label w)) = files w \<and>
         (\<forall>w2. (\<forall>c2. files w2 (base_file u g) \<noteq> Some (File c2)) \<longrightarrow>
            trace (snd (base_step R t u g label w2)) = trace w2 @ [listing_req t label])"
proof -
  obtain r1 w1 where m: "makedirs (u @ ''/base'') w = (r1, w1)"
    by (cases "makedirs (u @ ''/base'') w")
  from makedirs_files [OF m, of "base_file u g"] assms(3)
  have f1: "files w1 (base_file u g) = Some (File c)" by simp
  from makedirs_trace [OF m] have t1: "trace w1 = trace w" by simp
  have a: "files (snd (download_base_replays R t w)) (base_file u g) = Some (File c) \<and>
         filter (is_listing_for label)
           (drop (length (trace w)) (trace (snd (download_base_replays R t w)))) = []"
  proof (cases r1)
    case (Inl e)
    with m assms(1) have "snd (download_base_replays R t w) = w1"
      by (simp add: download_base_replays_def)
    with f1 t1 show ?thesis by simp
  next
    case (Inr x)
    with m assms(1)
    have e: "download_base_replays R t w = base_loop R t u GAME_TYPES w1"
      by (simp add: download_base_replays_def)
    obtain r2 w2 where l: "base_loop R t u GAME_TYPES w1 = (r2, w2)"
      by (cases "base_loop R t u GAME_TYPES w1")
    from base_loop_keeps [OF l f1, of label] GAME_TYPES_labels [OF assms(2)]
    obtain new where "files w2 (base_file u g) = Some (File c)"
      "trace w2 = trace w1 @ new" "filter (is_listing_for label) new = []"
      by blast
    with e l t1 show ?thesis by simp
  qed
  obtain r3 w3 where s: "base_step R t u g label w = (r3, w3)"
    by (cases "base_step R t u g label w")
  from base_step_present [OF assms(3) s] s
  have b: "trace (snd (base_step R t u g label w)) = trace w \<and>
           files (snd (base_step R t u g label w)) = files w"
    by simp
  have c: "\<forall>w2. (\<forall>c2. files w2 (base_file u g) \<noteq> Some (File c2)) \<longrightarrow>
            trace (snd (base_step R t u g label w2)) = trace w2 @ [listing_req t label]"
  proof (intro allI impI)
    fix w2 :: world assume n: "\<forall>c2. files w2 (base_file u g) \<noteq> Some (File c2)"
    then have n': "\<not> (\<exists>c. files w2 (base_file u g) = Some (File c))" by simp
    obtain r4 w4 where e: "fetch_base R t u g label w2 = (r4, w4)"
      by (cases "fetch_base R t u g label w2")
    show "trace (snd (base_step R t u g label w2)) = trace w2 @ [listing_req t label]"
    proof (cases r4)
      case (Inl err)
      with e base_step_absent_eq [OF n', of R t label] fetch_base_frame [OF e]
      show ?thesis by simp
    next
      case (Inr x)
      obtain r5 w5 where v: "verify_base u g w4 = (r5, w5)" by (cases "verify_base u g w4")
      with Inr e base_step_absent_eq [OF n', of R t label] fetch_base_frame [OF e]
        verify_base_frame [OF v]
      show ?thesis by simp
    qed
  qed
  from a b c show ?thesis by simp
qed


theorem C4_listing_fetched_once_witness:
  "username_of tag1 = Inr ''n'' \<and> (''qm'', ''Quick Match'') \<in> set GAME_TYPES \<and>
   files qm_listed_empty (base_file ''n'' ''qm'') = Some (File (Doc (JObj []))) \<and>
   files (snd (download_base_replays (\<lambda>h. remote_ab 200 200) tag1 qm_listed_empty))
     (base_file ''n'' ''qm'') = Some (File (Doc (JObj []))) \<and>
   filter (is_listing_for ''Quick Match'')
     (drop (length (trace qm_listed_empty))
        (trace (snd (download_base_replays (\<lambda>h. remote_ab 200 200) tag1 qm_listed_empty)))) = [] \<and>
   trace (snd (download_base_replays (\<lambda>h. remote_ab 200 200) tag1 qm_listed_empty)) =
     [listing_req tag1 ''Storm League'', listing_req tag1 ''Unranked Draft'',
      listing_req tag1 ''ARAM''] \<and>
   trace (snd (base_step (\<lambda>h. remote_ab 200 200) tag1 ''n'' ''qm'' ''Quick Match'' no_files)) =
     trace no_files @ [listing_req tag1 ''Quick Match'']"
proof -
  have h1: "username_of tag1 = Inr ''n''" by (simp add: tag1_def BattleTag_def)
  have h2: "(''qm'', ''Quick Match'') \<in> set GAME_TYPES" by (simp add: GAME_TYPES_def)
  have h3: "files qm_listed_empty (base_file ''n'' ''qm'') = Some (File (Doc (JObj [])))"
    by (simp add: qm_listed_empty_def write_file_def)
  have h4: "\<forall>c2. files no_files (base_file ''n'' ''qm'') \<noteq> Some (File c2)"
    by (simp add: no_files_def)
  have e: "trace (snd (download_base_replays (\<lambda>h. remote_ab 200 200) tag1 qm_listed_empty)) =
     [listing_req tag1 ''Storm League'', listing_req tag1 ''Unranked Draft'',
      listing_req tag1 ''ARAM'']"
    by code_simp
  from C4_listing_fetched_once [OF h1 h2 h3, of "\<lambda>h. remote_ab 200 200"] h1 h2 h3 h4 e
  show ?thesis by blast
qed

subsection \<open>Phase 2: the loop and its frame\<close>

lemma write_file_twice [simp]: "write_file p c (write_file p c' w) = write_file p c w"
  by (simp add: write_file_def)

text \<open>Writing a parsed value back gives the value that was parsed.\<close>

lemma plain_keys [simp]: "list_all (\<lambda>p. is_str_key (fst p)) (map (\<lambda>p. (KStr (fst p), snd p)) kvs)"
  by (induction kvs) simp_all

lemma plain_text [simp]:
  "map (\<lambda>p. (key_text (fst p), snd p)) (map (\<lambda>p. (KStr (fst p), snd p)) kvs) = kvs"
  by (induction kvs) simp_all

lemma dumped_loaded [simp]: "dumped (loaded a) = a"
  by (cases a) (simp_all del: map_map)

lemma fetch_loop_files:
  "fetch_loop R t u g ids a c w = (r, w') \<Longrightarrow> files w' = files w"
proof (induction ids arbitrary: a c w)
  case Nil
  then show ?case by simp
next
  case (Cons rid rest)
  then show ?case
    by (auto simp: Let_def
        split: sum.splits bool.splits response.splits if_splits body.splits prod.splits)
qed

lemma adv_step_reconcile:
  assumes "adv_records (files w (adv_file u g)) = Some a"
    and "files w (base_file u g) = Some (File basec)"
  shows "adv_step R t u g label w = reconcile R t u g label basec (loaded a) (loop_start u g w)"
  using assms
  by (auto simp: adv_step_def load_adv_def adv_records_def loop_start_def Let_def
      split: option.splits node.splits content.splits)

lemma reconcile_empty:
  assumes "\<not> truthy b \<or> getitem b label = Inr (JArr [])"
  shows "reconcile R t u g label (Doc b) a w =
     (Inr (), add_log [if truthy b then InfoAllDownloaded u g else InfoNoReplaysExist u g]
                (write_file (adv_file u g) (Doc (dumped a)) w))"
  using assms by (auto simp: reconcile_def)

lemma reconcile_loop:
  assumes "truthy b" and "getitem b label = Inr listing" and "py_iter listing = Inr ids"
  shows "reconcile R t u g label (Doc b) a w =
     (case fetch_loop R t u g ids a 0 w of
        (Inl e, w1) \<Rightarrow> (Inl e, w1)
      | (Inr (a', cnt), w1) \<Rightarrow>
          (Inr (), add_log [if cnt = 0 then InfoAllDownloaded u g
                            else InfoAdvancedDownloaded cnt]
                     (write_file (adv_file u g) (Doc (dumped a')) w1)))"
  using assms by (simp add: reconcile_def)


subsection \<open>A listing without identifiers\<close>

text \<open>
  Claim C6, as the code has it. When the parsed listing is empty as a whole (\<^verbatim>\<open>{}\<close>, or any
  other value that Python takes for false), or holds the empty list under the label of
  the category, the step of that category ends normally: the record set that was loaded
  is written back, no request is issued, the log says that nothing was downloaded, and
  the loop goes on with the next category.
\<close>

theorem C6_empty_listing:
  assumes "files w (base_file u g) = Some (File (Doc b))"
    and "\<not> truthy b \<or> getitem b label = Inr (JArr [])"
    and "adv_records (files w (adv_file u g)) = Some a"
  shows "fst (adv_step R t u g label w) = Inr () \<and>
         files (snd (adv_step R t u g label w)) = (files w)(adv_file u g \<mapsto> File (Doc a)) \<and>
         trace (snd (adv_step R t u g label w)) = trace w \<and>
         log (snd (adv_step R t u g label w)) =
           log w @ [InfoDownloadingAdvanced u g,
                    if truthy b then InfoAllDownloaded u g else InfoNoReplaysExist u g] \<and>
         adv_loop R t u ((g, label) # gls) w =
           adv_loop R t u gls (snd (adv_step R t u g label w))"
proof -
  have "adv_step R t u g label w =
     (Inr (), add_log [if truthy b then InfoAllDownloaded u g else InfoNoReplaysExist u g]
                (write_file (adv_file u g) (Doc a) (loop_start u g w)))"
    using adv_step_reconcile [OF assms(3) assms(1)] reconcile_empty [OF assms(2)] by simp
  then show ?thesis by (simp add: loop_start_def)
qed

theorem C6_empty_listing_witness:
  "files (qm_world (JObj [(''Quick Match'', JArr [])]) cached_x) (base_file ''n'' ''qm'') =
     Some (File (Doc (JObj [(''Quick Match'', JArr [])]))) \<and>
   getitem (JObj [(''Quick Match'', JArr [])]) ''Quick Match'' = Inr (JArr []) \<and>
   adv_records (files (qm_world (JObj [(''Quick Match'', JArr [])]) cached_x)
     (adv_file ''n'' ''qm'')) = Some cached_x \<and>
   fst (adv_step remote_down tag1 ''n'' ''qm'' ''Quick Match''
     (qm_world (JObj [(''Quick Match'', JArr [])]) cached_x)) = Inr () \<and>
   files (snd (adv_step remote_down tag1 ''n'' ''qm'' ''Quick Match''
     (qm_world (JObj [(''Quick Match'', JArr [])]) cached_x))) (adv_file ''n'' ''qm'') =
     Some (File (Doc cached_x)) \<and>
   trace (snd (adv_step remote_down tag1 ''n'' ''qm'' ''Quick Match''
     (qm_world (JObj [(''Quick Match'', JArr [])]) cached_x))) = []"
proof -
  have h1: "files (qm_world (JObj [(''Quick Match'', JArr [])]) cached_x)
      (base_file ''n'' ''qm'') = Some (File (Doc (JObj [(''Quick Match'', JArr [])])))"
    by (simp add: qm_world_def)
  have h2: "\<not> truthy (JObj [(''Quick Match'', JArr [])]) \<or>
      getitem (JObj [(''Quick Match'', JArr [])]) ''Quick Match'' = Inr (JArr [])"
    by simp
  have h3: "adv_records (files (qm_world (JObj [(''Quick Match'', JArr [])]) cached_x)
     (adv_file ''n'' ''qm'')) = Some cached_x"
    by (simp add: qm_world_def adv_records_def)
  have t: "trace (qm_world (JObj [(''Quick Match'', JArr [])]) cached_x) = []"
    by (simp add: qm_world_def no_files_def)
  from C6_empty_listing [OF h1 h2 h3, of remote_down tag1 "[]"] h1 h3 t
  show ?thesis by simp
qed

text \<open>
  The claim as written fails for a listing that is not empty and lacks the label of the
  category: line 112 raises KeyError, after line 105 has emptied the advanced file, so
  the step is an error and the cached record is lost.
\<close>

theorem C6_label_absent_counterexample:
  "''Quick Match'' \<notin> set (map fst [(''Storm League'', JArr [])]) \<and>
   fst (adv_step remote_down tag1 ''n'' ''qm'' ''Quick Match''
     (qm_world (JObj [(''Storm League'', JArr [])]) cached_x)) = Inl KeyError \<and>
   files (snd (adv_step remote_down tag1 ''n'' ''qm'' ''Quick Match''
     (qm_world (JObj [(''Storm League'', JArr [])]) cached_x))) (adv_file ''n'' ''qm'') =
     Some (File Blank)"
  by code_simp

subsection \<open>Exceptions inside the loop\<close>

lemma fetch_loop_skip:
  "member a rid = Inr True \<Longrightarrow>
   fetch_loop R t u g (rid # rest) a c w = fetch_loop R t u g rest a c w"
  by simp

lemma fetch_loop_unhashable:
  "member a rid = Inl err \<Longrightarrow> fetch_loop R t u g (rid # rest) a c w = (Inl err, w)"
  by simp

lemma fetch_loop_stored:
  "member a rid = Inr False \<Longrightarrow>
   R (trace w) (ReplayData (base_url t) (mode t) (api_token t) rid) = Response 200 (JsonBody j) \<Longrightarrow>
   subscript j rid = Inr (k, v) \<Longrightarrow> setitem a k v = Inr a' \<Longrightarrow>
   fetch_loop R t u g (rid # rest) a c w =
     fetch_loop R t u g rest a' (c + 1)
       (send (ReplayData (base_url t) (mode t) (api_token t) rid) w)"
  by simp

lemma fetch_loop_transport:
  "member a rid = Inr False \<Longrightarrow>
   R (trace w) (ReplayData (base_url t) (mode t) (api_token t) rid) = ConnectionFailed \<Longrightarrow>
   fetch_loop R t u g (rid # rest) a c w =
     (Inl RequestException, send (ReplayData (base_url t) (mode t) (api_token t) rid) w)"
  by simp

lemma fetch_loop_not_json:
  "member a rid = Inr False \<Longrightarrow>
   R (trace w) (ReplayData (base_url t) (mode t) (api_token t) rid) = Response 200 NotJson \<Longrightarrow>
   fetch_loop R t u g (rid # rest) a c w =
     (Inl JSONDecodeError, send (ReplayData (base_url t) (mode t) (api_token t) rid) w)"
  by simp

lemma fetch_loop_no_key:
  "member a rid = Inr False \<Longrightarrow>
   R (trace w) (ReplayData (base_url t) (mode t) (api_token t) rid) = Response 200 (JsonBody j) \<Longrightarrow>
   subscript j rid = Inl err \<Longrightarrow>
   fetch_loop R t u g (rid # rest) a c w =
     (Inl err, send (ReplayData (base_url t) (mode t) (api_token t) rid) w)"
  by simp

lemma fetch_loop_no_store:
  "member a rid = Inr False \<Longrightarrow>
   R (trace w) (ReplayData (base_url t) (mode t) (api_token t) rid) = Response 200 (JsonBody j) \<Longrightarrow>
   subscript j rid = Inr (k, v) \<Longrightarrow> setitem a k v = Inl err \<Longrightarrow>
   fetch_loop R t u g (rid # rest) a c w =
     (Inl err, send (ReplayData (base_url t) (mode t) (api_token t) rid) w)"
  by simp

lemma fetch_loop_refused:
  "member a rid = Inr False \<Longrightarrow>
   R (trace w) (ReplayData (base_url t) (mode t) (api_token t) rid) = Response st bd \<Longrightarrow>
   st \<noteq> 200 \<Longrightarrow>
   fetch_loop R t u g (rid # rest) a c w =
     (Inr (a, c),
      add_log [ErrorUnableToDownload rid u g, ErrorResponse (Response st bd)]
        (send (ReplayData (base_url t) (mode t) (api_token t) rid) w))"
  by simp

declare fetch_loop.simps(2) [simp del]

text \<open>
  Claim C10, as the code has it. The loop starts with the advanced file already emptied,
  and the file is written after the loop only. So when the loop ends with an exception,
  the step ends with that exception and leaves the file empty, whatever record set had
  been loaded. A request that fails in transport is such an exception, and so is a
  response with status 200 whose body has no value under the identifier. A response with
  any other status, 201 to 299 included, is no exception: the loop ends normally.
\<close>

theorem C10_exception_leaves_file_empty:
  assumes "files w (base_file u g) = Some (File (Doc b))" and "truthy b"
    and "getitem b label = Inr listing" and "py_iter listing = Inr ids"
    and "adv_records (files w (adv_file u g)) = Some a"
    and "fst (fetch_loop R t u g ids (loaded a) 0 (loop_start u g w)) = Inl e"
  shows "files (loop_start u g w) (adv_file u g) = Some (File Blank) \<and>
         fst (adv_step R t u g label w) = Inl e \<and>
         files (snd (adv_step R t u g label w)) (adv_file u g) = Some (File Blank) \<and>
         (\<forall>rid rest a' c w'. member a' rid = Inr False \<and>
              R (trace w') (ReplayData (base_url t) (mode t) (api_token t) rid) = ConnectionFailed
            \<longrightarrow> fst (fetch_loop R t u g (rid # rest) a' c w') = Inl RequestException) \<and>
         (\<forall>rid rest a' c w' j err. member a' rid = Inr False \<and>
              R (trace w') (ReplayData (base_url t) (mode t) (api_token t) rid)
                = Response 200 (JsonBody j) \<and>
              subscript j rid = Inl err
            \<longrightarrow> fst (fetch_loop R t u g (rid # rest) a' c w') = Inl err)"
proof -
  obtain r1 w1 where l: "fetch_loop R t u g ids (loaded a) 0 (loop_start u g w) = (r1, w1)"
    by (cases "fetch_loop R t u g ids (loaded a) 0 (loop_start u g w)")
  with assms(6) have r1: "r1 = Inl e" by simp
  from fetch_loop_files [OF l] have f: "files w1 = files (loop_start u g w)" .
  have s: "adv_step R t u g label w = (Inl e, w1)"
    using adv_step_reconcile [OF assms(5) assms(1)] reconcile_loop [OF assms(2-4)] l r1
    by simp
  have b: "files (loop_start u g w) (adv_file u g) = Some (File Blank)"
    by (simp add: loop_start_def)
  from s f b show ?thesis
    by (simp add: fetch_loop_transport fetch_loop_no_key)
qed

theorem C10_exception_leaves_file_empty_witness:
  "adv_records (files (qm_world listing_ab cached_x) (adv_file ''n'' ''qm'')) = Some cached_x \<and>
   fst (fetch_loop remote_down tag1 ''n'' ''qm'' [JStr ''a'', JStr ''b''] (loaded cached_x) 0
          (loop_start ''n'' ''qm'' (qm_world listing_ab cached_x))) = Inl RequestException \<and>
   fst (adv_step remote_down tag1 ''n'' ''qm'' ''Quick Match'' (qm_world listing_ab cached_x)) =
     Inl RequestException \<and>
   files (snd (adv_step remote_down tag1 ''n'' ''qm'' ''Quick Match''
     (qm_world listing_ab cached_x))) (adv_file ''n'' ''qm'') = Some (File Blank) \<and>
   fst (fetch_loop (remote_const 200 (JObj [])) tag1 ''n'' ''qm'' [JStr ''a'', JStr ''b'']
          (loaded cached_x) 0 (loop_start ''n'' ''qm'' (qm_world listing_ab cached_x)))
     = Inl KeyError \<and>
   fst (adv_step (remote_const 200 (JObj [])) tag1 ''n'' ''qm'' ''Quick Match''
     (qm_world listing_ab cached_x)) = Inl KeyError \<and>
   files (snd (adv_step (remote_const 200 (JObj [])) tag1 ''n'' ''qm'' ''Quick Match''
     (qm_world listing_ab cached_x))) (adv_file ''n'' ''qm'') = Some (File Blank)"
proof -
  have h1: "files (qm_world listing_ab cached_x) (base_file ''n'' ''qm'') =
      Some (File (Doc listing_ab))"
    by (simp add: qm_world_def)
  have h2: "truthy listing_ab" by (simp add: listing_ab_def)
  have h3: "getitem listing_ab ''Quick Match'' = Inr (JArr [JStr ''a'', JStr ''b''])"
    by (simp add: listing_ab_def)
  have h4: "py_iter (JArr [JStr ''a'', JStr ''b'']) = Inr [JStr ''a'', JStr ''b'']" by simp
  have h5: "adv_records (files (qm_world listing_ab cached_x) (adv_file ''n'' ''qm'')) =
      Some cached_x"
    by (simp add: qm_world_def adv_records_def)
  have c: "member (loaded cached_x) (JStr ''a'') = Inr False"
    by (simp add: cached_x_def key_matches_def)
  have h6: "fst (fetch_loop remote_down tag1 ''n'' ''qm'' [JStr ''a'', JStr ''b'']
          (loaded cached_x) 0
          (loop_start ''n'' ''qm'' (qm_world listing_ab cached_x))) = Inl RequestException"
    using fetch_loop_transport [OF c, of remote_down _ tag1] by (simp add: remote_down_def)
  have h7: "fst (fetch_loop (remote_const 200 (JObj [])) tag1 ''n'' ''qm''
          [JStr ''a'', JStr ''b''] (loaded cached_x) 0
          (loop_start ''n'' ''qm'' (qm_world listing_ab cached_x))) = Inl KeyError"
    using fetch_loop_no_key [OF c, of "remote_const 200 (JObj [])" _ tag1 "JObj []" KeyError]
    by (simp add: remote_const_def)
  from C10_exception_leaves_file_empty [OF h1 h2 h3 h4 h5 h6]
    C10_exception_leaves_file_empty [OF h1 h2 h3 h4 h5 h7] h5 h6 h7
  show ?thesis by simp
qed

text \<open>
  The claim as written fails at its second example: a response with status 201 whose body
  lacks the identifier raises nothing. The test of line 123 fails before the body is
  looked at, the loop ends, line 131 writes the record set that was loaded, and the step
  ends normally with the cached record kept.
\<close>

theorem C10_status_201_keeps_file_counterexample:
  "subscript (JObj []) (JStr ''a'') = Inl KeyError \<and>
   fst (adv_step (remote_const 201 (JObj [])) tag1 ''n'' ''qm'' ''Quick Match''
     (qm_world listing_ab cached_x)) = Inr () \<and>
   files (snd (adv_step (remote_const 201 (JObj [])) tag1 ''n'' ''qm'' ''Quick Match''
     (qm_world listing_ab cached_x))) (adv_file ''n'' ''qm'') = Some (File (Doc cached_x)) \<and>
   cached_x \<noteq> JObj []"
  by code_simp

subsection \<open>What a status other than 200 does in each phase\<close>

lemma fetch_base_refused:
  "R (trace w) (listing_req t label) = Response st bd \<Longrightarrow> st \<noteq> 200 \<Longrightarrow>
   fetch_base R t u g label w =
     (Inl AssertionError, send (listing_req t label) (add_log [InfoDownloadingBase u g] w))"
  by (simp add: fetch_base_def listing_req_def Let_def)

lemma fetch_base_stored:
  "R (trace w) (listing_req t label) = Response 200 (JsonBody j) \<Longrightarrow>
   files w (base_file u g) = None \<Longrightarrow>
   fetch_base R t u g label w =
     (Inr (), write_file (base_file u g) (Doc j)
                (send (listing_req t label) (add_log [InfoDownloadingBase u g] w)))"
  by (simp add: fetch_base_def listing_req_def Let_def)

lemma verify_base_doc:
  "files w (base_file u g) = Some (File (Doc j)) \<Longrightarrow> verify_base u g w = (Inr (), w)"
  by (simp add: verify_base_def)

lemma base_step_refused:
  assumes "\<forall>c. files w (base_file u g) \<noteq> Some (File c)"
    and "R (trace w) (listing_req t label) = Response st bd" and "st \<noteq> 200"
  shows "base_step R t u g label w =
     (Inl AssertionError, send (listing_req t label) (add_log [InfoDownloadingBase u g] w))"
proof -
  from assms(1) have "\<not> (\<exists>c. files w (base_file u g) = Some (File c))" by simp
  from base_step_absent_eq [OF this, of R t label] assms(2,3)
  show ?thesis by (simp add: fetch_base_refused)
qed

lemma base_step_stored:
  assumes "files w (base_file u g) = None"
    and "R (trace w) (listing_req t label) = Response 200 (JsonBody j)"
  shows "base_step R t u g label w =
     (Inr (), write_file (base_file u g) (Doc j)
                (send (listing_req t label) (add_log [InfoDownloadingBase u g] w)))"
proof -
  from assms(1) have "\<not> (\<exists>c. files w (base_file u g) = Some (File c))" by simp
  from base_step_absent_eq [OF this, of R t label] assms
  show ?thesis by (simp add: fetch_base_stored verify_base_doc)
qed

lemma adv_step_loop:
  assumes "files w (base_file u g) = Some (File (Doc b))" and "truthy b"
    and "getitem b label = Inr listing" and "py_iter listing = Inr ids"
    and "adv_records (files w (adv_file u g)) = Some a"
    and "fetch_loop R t u g ids (loaded a) 0 (loop_start u g w) = (Inr (a', c), w1)"
  shows "adv_step R t u g label w =
     (Inr (), add_log [if c = 0 then InfoAllDownloaded u g else InfoAdvancedDownloaded c]
                (write_file (adv_file u g) (Doc (dumped a')) w1))"
  using adv_step_reconcile [OF assms(5) assms(1)] reconcile_loop [OF assms(2-4)] assms(6)
  by simp

text \<open>
  Claim C5, as the code has it: success is status 200, not any status from 200 to 299.
  In Phase 1, a listing response with another status fails the assertion of line 70:
  the loop over the categories ends there with that one request made and no file
  written, and an error of Phase 1 ends the whole run at this identity. A response with
  status 200 has its JSON body written to the listing file. In Phase 2, a detail response
  with another status is logged and ends the loop over the identifiers without an
  exception, no further request being made; the step then writes the record set it has
  and the loop over the categories goes on, as does the run with the next identity.
\<close>

theorem C5_status_policy:
  "((\<forall>c. files w (base_file u g) \<noteq> Some (File c)) \<and>
      R (trace w) (listing_req t label) = Response st bd \<and> st \<noteq> 200 \<longrightarrow>
      fst (base_loop R t u ((g, label) # gls) w) = Inl AssertionError \<and>
      files (snd (base_loop R t u ((g, label) # gls) w)) = files w \<and>
      trace (snd (base_loop R t u ((g, label) # gls) w)) = trace w @ [listing_req t label]) \<and>
   (fst (download_base_replays R t w) = Inl e \<longrightarrow>
      fetch_tags R (t # ts) w = download_base_replays R t w) \<and>
   (files w (base_file u g) = None \<and>
      R (trace w) (listing_req t label) = Response 200 (JsonBody j) \<longrightarrow>
      fst (base_step R t u g label w) = Inr () \<and>
      files (snd (base_step R t u g label w)) = (files w)(base_file u g \<mapsto> File (Doc j))) \<and>
   (member adv rid = Inr False \<and>
      R (trace w) (ReplayData (base_url t) (mode t) (api_token t) rid) = Response st bd \<and>
      st \<noteq> 200 \<longrightarrow>
      fetch_loop R t u g (rid # rest) adv cnt w =
        (Inr (adv, cnt),
         add_log [ErrorUnableToDownload rid u g, ErrorResponse (Response st bd)]
           (send (ReplayData (base_url t) (mode t) (api_token t) rid) w))) \<and>
   (files w (base_file u g) = Some (File (Doc b)) \<and> truthy b \<and>
      getitem b label = Inr listing \<and> py_iter listing = Inr ids \<and>
      adv_records (files w (adv_file u g)) = Some a \<and>
      fst (fetch_loop R t u g ids (loaded a) 0 (loop_start u g w)) = Inr (a', cnt) \<longrightarrow>
      fst (adv_step R t u g label w) = Inr () \<and>
      files (snd (adv_step R t u g label w)) (adv_file u g) = Some (File (Doc (dumped a'))) \<and>
      adv_loop R t u ((g, label) # gls) w =
        adv_loop R t u gls (snd (adv_step R t u g label w))) \<and>
   (fst (fetch_tag R t w) = Inr () \<longrightarrow>
      fetch_tags R (t # ts) w = fetch_tags R ts (snd (fetch_tag R t w)))"
proof -
  have p1: "fst (base_loop R t u ((g, label) # gls) w) = Inl AssertionError \<and>
      files (snd (base_loop R t u ((g, label) # gls) w)) = files w \<and>
      trace (snd (base_loop R t u ((g, label) # gls) w)) = trace w @ [listing_req t label]"
    if "\<forall>c. files w (base_file u g) \<noteq> Some (File c)"
      "R (trace w) (listing_req t label) = Response st bd" "st \<noteq> 200"
    using that by (simp add: base_step_refused)
  have p2: "fetch_tags R (t # ts) w = download_base_replays R t w"
    if "fst (download_base_replays R t w) = Inl e"
    using that by (cases "download_base_replays R t w") (simp add: fetch_tag_def)
  have p3: "fst (base_step R t u g label w) = Inr () \<and>
      files (snd (base_step R t u g label w)) = (files w)(base_file u g \<mapsto> File (Doc j))"
    if "files w (base_file u g) = None"
      "R (trace w) (listing_req t label) = Response 200 (JsonBody j)"
    using that by (simp add: base_step_stored)
  have p5: "fst (adv_step R t u g label w) = Inr () \<and>
      files (snd (adv_step R t u g label w)) (adv_file u g) = Some (File (Doc (dumped a'))) \<and>
      adv_loop R t u ((g, label) # gls) w =
        adv_loop R t u gls (snd (adv_step R t u g label w))"
    if h: "files w (base_file u g) = Some (File (Doc b))" "truthy b"
      "getitem b label = Inr listing" "py_iter listing = Inr ids"
      "adv_records (files w (adv_file u g)) = Some a"
      and l: "fst (fetch_loop R t u g ids (loaded a) 0 (loop_start u g w)) = Inr (a', cnt)"
  proof -
    obtain w1 where
      "fetch_loop R t u g ids (loaded a) 0 (loop_start u g w) = (Inr (a', cnt), w1)"
      using l by (cases "fetch_loop R t u g ids (loaded a) 0 (loop_start u g w)") simp
    from adv_step_loop [OF h this] show ?thesis by simp
  qed
  have p6: "fetch_tags R (t # ts) w = fetch_tags R ts (snd (fetch_tag R t w))"
    if "fst (fetch_tag R t w) = Inr ()"
    using that by (cases "fetch_tag R t w") simp
  from p1 p2 p3 p5 p6 show ?thesis
    by (simp add: fetch_loop_refused)
qed


theorem C5_status_policy_witness:
  "fst (base_loop (remote_const 500 (JObj [])) tag1 ''n''
          ((''qm'', ''Quick Match'') # [(''sl'', ''Storm League'')]) no_files) =
     Inl AssertionError \<and>
   trace (snd (base_loop (remote_const 500 (JObj [])) tag1 ''n''
          ((''qm'', ''Quick Match'') # [(''sl'', ''Storm League'')]) no_files)) =
     trace no_files @ [listing_req tag1 ''Quick Match''] \<and>
   fetch_tags (remote_const 500 (JObj [])) (tag1 # []) no_files =
     download_base_replays (remote_const 500 (JObj [])) tag1 no_files \<and>
   files (snd (base_step (remote_const 200 listing_ab) tag1 ''n'' ''qm'' ''Quick Match''
          no_files)) =
     (files no_files)(base_file ''n'' ''qm'' \<mapsto> File (Doc listing_ab)) \<and>
   fetch_loop (remote_const 500 (JObj [])) tag1 ''n'' ''qm'' (JStr ''a'' # [JStr ''b''])
       (loaded cached_x) 0 no_files =
     (Inr (loaded cached_x, 0),
      add_log [ErrorUnableToDownload (JStr ''a'') ''n'' ''qm'',
               ErrorResponse (Response 500 (JsonBody (JObj [])))]
        (send (detail_req tag1 ''a'') no_files)) \<and>
   fst (adv_step (remote_const 500 (JObj [])) tag1 ''n'' ''qm'' ''Quick Match''
          (qm_world listing_ab cached_x)) = Inr () \<and>
   files (snd (adv_step (remote_const 500 (JObj [])) tag1 ''n'' ''qm'' ''Quick Match''
          (qm_world listing_ab cached_x))) (adv_file ''n'' ''qm'') =
     Some (File (Doc cached_x)) \<and>
   fetch_tags (remote_const 200 (JObj [])) (tag1 # [tag1]) no_files =
     fetch_tags (remote_const 200 (JObj [])) [tag1]
       (snd (fetch_tag (remote_const 200 (JObj [])) tag1 no_files))"
proof -
  have n: "\<forall>c. files no_files (base_file ''n'' ''qm'') \<noteq> Some (File c)"
    "files no_files (base_file ''n'' ''qm'') = None"
    by (simp_all add: no_files_def)
  have r5: "remote_const 500 (JObj []) (trace no_files) (listing_req tag1 ''Quick Match'') =
      Response 500 (JsonBody (JObj []))" "(500::int) \<noteq> 200"
    "remote_const 500 (JObj []) (trace no_files) (detail_req tag1 ''a'') =
      Response 500 (JsonBody (JObj []))"
    by (simp_all add: remote_const_def)
  have r2: "remote_const 200 listing_ab (trace no_files) (listing_req tag1 ''Quick Match'') =
      Response 200 (JsonBody listing_ab)"
    by (simp add: remote_const_def)
  have d: "fst (download_base_replays (remote_const 500 (JObj [])) tag1 no_files) =
      Inl AssertionError"
    by code_simp
  have c: "member (loaded cached_x) (JStr ''a'') = Inr False"
    by (simp add: cached_x_def key_matches_def)
  have h: "files (qm_world listing_ab cached_x) (base_file ''n'' ''qm'') =
        Some (File (Doc listing_ab))" "truthy listing_ab"
      "getitem listing_ab ''Quick Match'' = Inr (JArr [JStr ''a'', JStr ''b''])"
      "py_iter (JArr [JStr ''a'', JStr ''b'']) = Inr [JStr ''a'', JStr ''b'']"
      "adv_records (files (qm_world listing_ab cached_x) (adv_file ''n'' ''qm'')) =
        Some cached_x"
    by (simp_all add: qm_world_def listing_ab_def adv_records_def)
  have l: "fst (fetch_loop (remote_const 500 (JObj [])) tag1 ''n'' ''qm''
        [JStr ''a'', JStr ''b''] (loaded cached_x) 0
        (loop_start ''n'' ''qm'' (qm_world listing_ab cached_x))) = Inr (loaded cached_x, 0)"
    using c by (simp add: fetch_loop_refused remote_const_def)
  have f: "fst (fetch_tag (remote_const 200 (JObj [])) tag1 no_files) = Inr ()"
    by code_simp
  note A = C5_status_policy [where R = "remote_const 500 (JObj [])" and w = no_files
      and u = "''n''" and g = "''qm''" and t = tag1 and label = "''Quick Match''"
      and st = 500 and bd = "JsonBody (JObj [])" and gls = "[(''sl'', ''Storm League'')]"
      and e = AssertionError and ts = "[]" and adv = "loaded cached_x" and rid = "JStr ''a''"
      and rest = "[JStr ''b'']" and cnt = 0]
  note B = C5_status_policy [where R = "remote_const 500 (JObj [])"
      and w = "qm_world listing_ab cached_x"
      and u = "''n''" and g = "''qm''" and t = tag1 and label = "''Quick Match''"
      and b = listing_ab and listing = "JArr [JStr ''a'', JStr ''b'']"
      and ids = "[JStr ''a'', JStr ''b'']" and a = cached_x and a' = "loaded cached_x" and cnt = 0]
  note C = C5_status_policy [where R = "remote_const 200 listing_ab" and w = no_files
      and u = "''n''" and g = "''qm''" and t = tag1 and label = "''Quick Match''"
      and j = listing_ab]
  note D = C5_status_policy [where R = "remote_const 200 (JObj [])" and w = no_files
      and t = tag1 and ts = "[tag1]"]
  from A n r5 d c have a1: "fst (base_loop (remote_const 500 (JObj [])) tag1 ''n''
          ((''qm'', ''Quick Match'') # [(''sl'', ''Storm League'')]) no_files) =
     Inl AssertionError"
   and a2: "trace (snd (base_loop (remote_const 500 (JObj [])) tag1 ''n''
          ((''qm'', ''Quick Match'') # [(''sl'', ''Storm League'')]) no_files)) =
     trace no_files @ [listing_req tag1 ''Quick Match'']"
   and a3: "fetch_tags (remote_const 500 (JObj [])) (tag1 # []) no_files =
     download_base_replays (remote_const 500 (JObj [])) tag1 no_files"
   and a4: "fetch_loop (remote_const 500 (JObj [])) tag1 ''n'' ''qm'' (JStr ''a'' # [JStr ''b''])
       (loaded cached_x) 0 no_files =
     (Inr (loaded cached_x, 0),
      add_log [ErrorUnableToDownload (JStr ''a'') ''n'' ''qm'',
               ErrorResponse (Response 500 (JsonBody (JObj [])))]
        (send (detail_req tag1 ''a'') no_files))"
    unfolding detail_req_def by blast+
  from B h l have b1: "fst (adv_step (remote_const 500 (JObj [])) tag1 ''n'' ''qm''
          ''Quick Match'' (qm_world listing_ab cached_x)) = Inr ()"
    and b2': "files (snd (adv_step (remote_const 500 (JObj [])) tag1 ''n'' ''qm''
          ''Quick Match'' (qm_world listing_ab cached_x))) (adv_file ''n'' ''qm'') =
     Some (File (Doc (dumped (loaded cached_x))))"
    by blast+
  from b2' have b2: "files (snd (adv_step (remote_const 500 (JObj [])) tag1 ''n'' ''qm''
          ''Quick Match'' (qm_world listing_ab cached_x))) (adv_file ''n'' ''qm'') =
     Some (File (Doc cached_x))"
    by simp
  from C n r2 have c1: "files (snd (base_step (remote_const 200 listing_ab) tag1 ''n'' ''qm''
          ''Quick Match'' no_files)) =
     (files no_files)(base_file ''n'' ''qm'' \<mapsto> File (Doc listing_ab))"
    by blast
  from D f have d1: "fetch_tags (remote_const 200 (JObj [])) (tag1 # [tag1]) no_files =
     fetch_tags (remote_const 200 (JObj [])) [tag1]
       (snd (fetch_tag (remote_const 200 (JObj [])) tag1 no_files))"
    by blast
  from a1 a2 a3 a4 b1 b2 c1 d1 show ?thesis by blast
qed

text \<open>
  The claim as written fails at a status from 201 to 299: a listing response with status
  201 and a JSON body ends the run with AssertionError, and nothing is written.
\<close>

theorem C5_status_201_counterexample:
  "(200::int) \<le> 201 \<and> (201::int) < 300 \<and>
   fst (fetch_tags (remote_const 201 listing_ab) [tag1] no_files) = Inl AssertionError \<and>
   files (snd (fetch_tags (remote_const 201 listing_ab) [tag1] no_files))
     (base_file ''n'' ''qm'') = None"
  by code_simp

subsection \<open>Resuming after a refused detail request\<close>

lemma dict_set_keys: "fst ` set (dict_set kvs k v) = insert k (fst ` set kvs)"
  by (induction kvs) auto

lemma dict_set_new: "k \<notin> set (map fst kvs) \<Longrightarrow> dict_set kvs k v = kvs @ [(k, v)]"
  by (induction kvs) auto

lemma record_of_Some:
  "record_of resp s = Some v \<Longrightarrow> \<exists>j. resp = Response 200 (JsonBody j) \<and> getitem j s = Inr v"
  by (auto simp: record_of_def split: response.splits body.splits if_splits sum.splits)

lemma trace_update_send:
  "(send q w)\<lparr>trace := xs\<rparr> = w\<lparr>trace := xs\<rparr>"
  by (simp add: send_def)

text \<open>
  For an identifier that is a string, the loop works on a parsed record set as on the
  parsed value itself.
\<close>

lemma py_eq_str [simp]: "py_eq y (JStr s) = (y = JStr s)"
proof (cases y)
  case (JFloat f)
  then show ?thesis by (cases f) simp
qed auto

lemma member_loaded: "member (loaded a) (JStr s) = contains a s"
proof (cases a)
  case (JObj kvs)
  have "list_ex (\<lambda>p. key_matches (fst p) (JStr s)) (map (\<lambda>p. (KStr (fst p), snd p)) kvs) =
      (s \<in> set (map fst kvs))"
    by (induction kvs) (auto simp: key_matches_def)
  with JObj show ?thesis by simp
next
  case (JArr xs)
  have "list_ex (\<lambda>y. py_eq y (JStr s)) xs = (JStr s \<in> set xs)"
    by (induction xs) auto
  with JArr show ?thesis by simp
qed simp_all

lemma subscript_str:
  "subscript j (JStr s) = (case getitem j s of Inl e \<Rightarrow> Inl e | Inr v \<Rightarrow> Inr (KStr s, v))"
  by (cases j) (simp_all split: option.splits)

lemma dict_put_str:
  "dict_put (map (\<lambda>p. (KStr (fst p), snd p)) kvs) (KStr s) v =
   map (\<lambda>p. (KStr (fst p), snd p)) (dict_set kvs s v)"
  by (induction kvs) (auto simp: same_key_def)

lemma setitem_loaded:
  "setitem (loaded (JObj kvs)) (KStr s) v = Inr (loaded (JObj (dict_set kvs s v)))"
  by (simp add: dict_put_str)

text \<open>Identifiers that are all cached already are passed over, whatever the remote.\<close>

lemma fetch_loop_cached:
  "set ss \<subseteq> set (map fst kvs) \<Longrightarrow>
   fetch_loop R t u g (map JStr ss @ rest) (loaded (JObj kvs)) c w =
     fetch_loop R t u g rest (loaded (JObj kvs)) c w"
proof (induction ss)
  case Nil
  then show ?case by simp
next
  case (Cons s ss)
  then have "member (loaded (JObj kvs)) (JStr s) = Inr True"
    by (simp add: member_loaded del: loaded.simps)
  from fetch_loop_skip [OF this] Cons show ?case by simp
qed

text \<open>
  Distinct identifiers, none cached, each answered with status 200 and a body that holds
  it: every one is requested, in order, and stored after the records already there.
\<close>

lemma fetch_loop_good:
  "distinct ss \<Longrightarrow> set ss \<inter> set (map fst kvs) = {} \<Longrightarrow>
   (\<forall>s\<in>set ss. record_of (r (detail_req t s)) s \<noteq> None) \<Longrightarrow>
   fetch_loop (\<lambda>h. r) t u g (map JStr ss @ rest) (loaded (JObj kvs)) c w =
     fetch_loop (\<lambda>h. r) t u g rest (loaded (JObj (kvs @ map (fetched_record r t) ss)))
       (c + length ss) (w\<lparr>trace := trace w @ map (detail_req t) ss\<rparr>)"
proof (induction ss arbitrary: kvs c w)
  case Nil
  then show ?case by simp
next
  case (Cons s ss)
  from Cons.prems(3) obtain v where v: "record_of (r (detail_req t s)) s = Some v" by auto
  from record_of_Some [OF v] obtain j where
    j: "r (detail_req t s) = Response 200 (JsonBody j)" "getitem j s = Inr v"
    by blast
  from Cons.prems(2) have n: "s \<notin> set (map fst kvs)" by auto
  then have c: "member (loaded (JObj kvs)) (JStr s) = Inr False"
    by (simp add: member_loaded del: loaded.simps)
  have sb: "subscript j (JStr s) = Inr (KStr s, v)"
    using j(2) by (simp add: subscript_str)
  have st: "setitem (loaded (JObj kvs)) (KStr s) v = Inr (loaded (JObj (kvs @ [(s, v)])))"
    using n setitem_loaded [of kvs s v] by (simp add: dict_set_new del: loaded.simps)
  have step: "fetch_loop (\<lambda>h. r) t u g (map JStr (s # ss) @ rest) (loaded (JObj kvs)) c w =
      fetch_loop (\<lambda>h. r) t u g (map JStr ss @ rest) (loaded (JObj (kvs @ [(s, v)]))) (c + 1)
        (send (detail_req t s) w)"
    using fetch_loop_stored [of "loaded (JObj kvs)" "JStr s" "\<lambda>h. r" w t j "KStr s" v
        "loaded (JObj (kvs @ [(s, v)]))" u g "map JStr ss @ rest" c] c j(1) sb st
    by (simp add: detail_req_def del: loaded.simps)
  have d: "distinct ss" "set ss \<inter> set (map fst (kvs @ [(s, v)])) = {}"
    "\<forall>x\<in>set ss. record_of (r (detail_req t x)) x \<noteq> None"
    using Cons.prems by auto
  have fr: "fetched_record r t s = (s, v)" by (simp add: fetched_record_def v)
  from step Cons.IH [OF d, of "c + 1" "send (detail_req t s) w"] fr
  show ?case by (simp add: trace_update_send del: loaded.simps)
qed

lemma add_log_nothing [simp]: "add_log [] w = w"
  by (simp add: add_log_def)

text \<open>
  The step of the loop at an identifier that is not in the record set: either the record
  is stored and the loop goes on, or the loop ends there, with the accumulated state or
  with an exception. The request has been made in both cases.
\<close>

lemma fetch_loop_request_cases:
  assumes "member a rid = Inr False"
  shows "(\<exists>j k v a'. R (trace w) (ReplayData (base_url t) (mode t) (api_token t) rid)
                = Response 200 (JsonBody j) \<and>
            subscript j rid = Inr (k, v) \<and> setitem a k v = Inr a' \<and>
            fetch_loop R t u g (rid # rest) a c w =
              fetch_loop R t u g rest a' (c + 1)
                (send (ReplayData (base_url t) (mode t) (api_token t) rid) w)) \<or>
         (\<exists>res es. fetch_loop R t u g (rid # rest) a c w =
              (res, add_log es (send (ReplayData (base_url t) (mode t) (api_token t) rid) w)) \<and>
            (res = Inr (a, c) \<and>
               (\<exists>st bd. R (trace w) (ReplayData (base_url t) (mode t) (api_token t) rid)
                   = Response st bd \<and> st \<noteq> 200) \<or>
             (\<exists>e. res = Inl e)))"
    (is "?go \<or> ?stop")
proof (cases "R (trace w) (ReplayData (base_url t) (mode t) (api_token t) rid)")
  case ConnectionFailed
  with assms have "fetch_loop R t u g (rid # rest) a c w =
      (Inl RequestException,
       add_log [] (send (ReplayData (base_url t) (mode t) (api_token t) rid) w))"
    by (simp add: fetch_loop_transport)
  then show ?thesis by blast
next
  case (Response st bd)
  show ?thesis
  proof (cases "st = 200")
    case False
    with assms Response have "fetch_loop R t u g (rid # rest) a c w =
      (Inr (a, c), add_log [ErrorUnableToDownload rid u g, ErrorResponse (Response st bd)]
         (send (ReplayData (base_url t) (mode t) (api_token t) rid) w))"
      by (simp add: fetch_loop_refused)
    with False Response show ?thesis by blast
  next
    case True
    show ?thesis
    proof (cases bd)
      case NotJson
      with assms Response True have "fetch_loop R t u g (rid # rest) a c w =
          (Inl JSONDecodeError,
           add_log [] (send (ReplayData (base_url t) (mode t) (api_token t) rid) w))"
        by (simp add: fetch_loop_not_json)
      then show ?thesis by blast
    next
      case (JsonBody j)
      show ?thesis
      proof (cases "subscript j rid")
        case (Inl e)
        with assms Response True JsonBody
        have "fetch_loop R t u g (rid # rest) a c w =
            (Inl e, add_log [] (send (ReplayData (base_url t) (mode t) (api_token t) rid) w))"
          by (simp add: fetch_loop_no_key)
        then show ?thesis by blast
      next
        case (Inr kv)
        obtain k v where kv: "kv = (k, v)" by (cases kv)
        show ?thesis
        proof (cases "setitem a k v")
          case (Inl e)
          with assms Response True JsonBody Inr kv
          have "fetch_loop R t u g (rid # rest) a c w =
              (Inl e, add_log [] (send (ReplayData (base_url t) (mode t) (api_token t) rid) w))"
            by (simp add: fetch_loop_no_store)
          then show ?thesis by blast
        next
          case a': (Inr a')
          with assms Response True JsonBody Inr kv
          have "fetch_loop R t u g (rid # rest) a c w =
              fetch_loop R t u g rest a' (c + 1)
                (send (ReplayData (base_url t) (mode t) (api_token t) rid) w)"
            by (simp add: fetch_loop_stored)
          with Response True JsonBody Inr kv a' show ?thesis by blast
        qed
      qed
    qed
  qed
qed

text \<open>Assigning to a key of a dict removes no key.\<close>

lemma dict_put_keeps: "fst ` set kvs \<subseteq> fst ` set (dict_put kvs k v)"
  by (induction kvs) auto

lemma member_put:
  assumes "member (AdvDict (dict_put kvs k v)) x = Inr False"
  shows "member (AdvDict kvs) x = Inr False"
proof -
  have "\<not> list_ex (\<lambda>p. key_matches (fst p) x) kvs"
    if "\<not> list_ex (\<lambda>p. key_matches (fst p) x) (dict_put kvs k v)"
  proof
    assume "list_ex (\<lambda>p. key_matches (fst p) x) kvs"
    then obtain p where "p \<in> set kvs" "key_matches (fst p) x" by (auto simp: list_ex_iff)
    with dict_put_keeps [of kvs k v] obtain p' where
      "p' \<in> set (dict_put kvs k v)" "fst p' = fst p"
      by (metis (no_types, lifting) image_iff subsetD)
    with \<open>key_matches (fst p) x\<close> that show False by (auto simp: list_ex_iff)
  qed
  with assms show ?thesis by (cases x) auto
qed

text \<open>
  Whatever the remote, a loop that starts with a dict makes a request for identifiers
  absent from that dict only.
\<close>

lemma fetch_loop_requests:
  "fetch_loop R t u g ids (AdvDict kvs) c w = (res, w') \<Longrightarrow>
   \<exists>new. trace w' = trace w @ new \<and>
     (\<forall>q\<in>set new. \<exists>rid. q = ReplayData (base_url t) (mode t) (api_token t) rid \<and>
        member (AdvDict kvs) rid = Inr False)"
proof (induction ids arbitrary: kvs c w)
  case Nil
  then show ?case by simp
next
  case (Cons rid rest)
  show ?case
  proof (cases "member (AdvDict kvs) rid")
    case (Inl e)
    from fetch_loop_unhashable [OF this, of R t u g rest c w] Cons.prems
    have "w' = w" by simp
    then show ?thesis by simp
  next
    case (Inr bl)
    show ?thesis
    proof (cases bl)
      case True
      with Inr Cons.prems have "fetch_loop R t u g rest (AdvDict kvs) c w = (res, w')"
        by (simp add: fetch_loop_skip)
      from Cons.IH [OF this] show ?thesis .
    next
      case False
      with Inr have nc: "member (AdvDict kvs) rid = Inr False" by simp
      from fetch_loop_request_cases [OF nc, of R w t u g rest c]
      consider (go) k v a' where "setitem (AdvDict kvs) k v = Inr a'"
          "fetch_loop R t u g (rid # rest) (AdvDict kvs) c w =
             fetch_loop R t u g rest a' (c + 1)
               (send (ReplayData (base_url t) (mode t) (api_token t) rid) w)"
        | (stop) res' es where "fetch_loop R t u g (rid # rest) (AdvDict kvs) c w =
            (res', add_log es (send (ReplayData (base_url t) (mode t) (api_token t) rid) w))"
        by blast
      then show ?thesis
      proof cases
        case go
        from go(1) have a': "a' = AdvDict (dict_put kvs k v)" by simp
        from go(2) Cons.prems a'
        have "fetch_loop R t u g rest (AdvDict (dict_put kvs k v)) (c + 1)
            (send (ReplayData (base_url t) (mode t) (api_token t) rid) w) = (res, w')"
          by simp
        from Cons.IH [OF this] obtain new where
          n: "trace w' =
                trace (send (ReplayData (base_url t) (mode t) (api_token t) rid) w) @ new"
             "\<forall>q\<in>set new. \<exists>x. q = ReplayData (base_url t) (mode t) (api_token t) x \<and>
                member (AdvDict (dict_put kvs k v)) x = Inr False"
          by blast
        from n(2) member_put
        have "\<forall>q\<in>set new. \<exists>x. q = ReplayData (base_url t) (mode t) (api_token t) x \<and>
                member (AdvDict kvs) x = Inr False"
          by blast
        with n(1) nc
        have "trace w' = trace w @ (ReplayData (base_url t) (mode t) (api_token t) rid # new) \<and>
            (\<forall>q\<in>set (ReplayData (base_url t) (mode t) (api_token t) rid # new).
               \<exists>x. q = ReplayData (base_url t) (mode t) (api_token t) x \<and>
                 member (AdvDict kvs) x = Inr False)"
          by auto
        then show ?thesis by blast
      next
        case stop
        with Cons.prems
        have "w' = add_log es (send (ReplayData (base_url t) (mode t) (api_token t) rid) w)"
          by simp
        with nc
        have "trace w' = trace w @ [ReplayData (base_url t) (mode t) (api_token t) rid] \<and>
            (\<forall>q\<in>set [ReplayData (base_url t) (mode t) (api_token t) rid].
               \<exists>x. q = ReplayData (base_url t) (mode t) (api_token t) x \<and>
                 member (AdvDict kvs) x = Inr False)"
          by auto
        then show ?thesis by blast
      qed
    qed
  qed
qed

lemma detail_req_inject [simp]: "(detail_req t s = detail_req t s') = (s = s')"
  by (simp add: detail_req_def)

lemma fetched_record_fst [simp]: "fst (fetched_record r t s) = s"
  by (simp add: fetched_record_def)

lemma adv_step_trace:
  assumes "files w (base_file u g) = Some (File (Doc b))" and "truthy b"
    and "getitem b label = Inr listing" and "py_iter listing = Inr ids"
    and "adv_records (files w (adv_file u g)) = Some a"
  shows "trace (snd (adv_step R t u g label w)) =
         trace (snd (fetch_loop R t u g ids (loaded a) 0 (loop_start u g w)))"
proof -
  obtain res w1 where l: "fetch_loop R t u g ids (loaded a) 0 (loop_start u g w) = (res, w1)"
    by (cases "fetch_loop R t u g ids (loaded a) 0 (loop_start u g w)")
  show ?thesis
    using adv_step_reconcile [OF assms(5) assms(1)] reconcile_loop [OF assms(2-4)] l
    by (cases res) auto
qed

text \<open>
  Claim C1, as the code has it: success is status 200 with a body that holds the
  identifier. A category lists the distinct identifiers \<open>ss\<close>, none of them among the
  cached records \<open>kvs\<close>. In the first run the first \<open>k\<close> detail requests succeed and the
  next has another status. Then the step ends normally, the advanced file holds the
  records cached before followed by the first \<open>k\<close> records in listing order, the listing
  is as it was, and the requests made are those for the first \<open>k + 1\<close> identifiers. In a
  later run from there, no remote makes the step request any of the first \<open>k\<close> again; and
  when the remaining identifiers are answered with success, the requests are exactly
  theirs, in order, and their records are appended.
\<close>

theorem C1_resume_after_refusal:
  assumes base: "files w (base_file u g) = Some (File (Doc b))" "truthy b"
      "getitem b label = Inr (JArr (map JStr ss))"
    and adv: "adv_records (files w (adv_file u g)) = Some (JObj kvs)"
    and fresh: "distinct ss" "set ss \<inter> set (map fst kvs) = {}"
    and k: "k < length ss"
    and good: "\<forall>s\<in>set (take k ss). record_of (r (detail_req t s)) s \<noteq> None"
    and bad: "r (detail_req t (ss ! k)) = Response st bd" "st \<noteq> 200"
  shows "fst (adv_step (\<lambda>h. r) t u g label w) = Inr () \<and>
     files (snd (adv_step (\<lambda>h. r) t u g label w)) (adv_file u g) =
       Some (File (Doc (JObj (kvs @ map (fetched_record r t) (take k ss))))) \<and>
     files (snd (adv_step (\<lambda>h. r) t u g label w)) (base_file u g) = Some (File (Doc b)) \<and>
     trace (snd (adv_step (\<lambda>h. r) t u g label w)) =
       trace w @ map (detail_req t) (take (Suc k) ss) \<and>
     (\<forall>R2. filter (\<lambda>q. q \<in> set (map (detail_req t) (take k ss)))
        (drop (length (trace (snd (adv_step (\<lambda>h. r) t u g label w))))
           (trace (snd (adv_step R2 t u g label (snd (adv_step (\<lambda>h. r) t u g label w))))))
        = []) \<and>
     (\<forall>r2. (\<forall>s\<in>set (drop k ss). record_of (r2 (detail_req t s)) s \<noteq> None) \<longrightarrow>
        fst (adv_step (\<lambda>h. r2) t u g label (snd (adv_step (\<lambda>h. r) t u g label w))) = Inr () \<and>
        trace (snd (adv_step (\<lambda>h. r2) t u g label (snd (adv_step (\<lambda>h. r) t u g label w)))) =
          trace (snd (adv_step (\<lambda>h. r) t u g label w)) @ map (detail_req t) (drop k ss) \<and>
        files (snd (adv_step (\<lambda>h. r2) t u g label (snd (adv_step (\<lambda>h. r) t u g label w))))
            (adv_file u g) =
          Some (File (Doc (JObj (kvs @ map (fetched_record r t) (take k ss) @
                                 map (fetched_record r2 t) (drop k ss))))))"
proof -
  define kvs1 where "kvs1 = kvs @ map (fetched_record r t) (take k ss)"
  define L where "L = loop_start u g w"
  define L1 where "L1 = L\<lparr>trace := trace L @ map (detail_req t) (take k ss)\<rparr>"
  define W1 where "W1 = snd (adv_step (\<lambda>h. r) t u g label w)"
  have it: "py_iter (JArr (map JStr ss)) = Inr (map JStr ss)" by simp
  have split_ids: "map JStr ss =
      map JStr (take k ss) @ (JStr (ss ! k) # map JStr (drop (Suc k) ss))"
    using k by (metis id_take_nth_drop list.simps(9) map_append)
  have dk: "distinct (take k ss)" "set (take k ss) \<inter> set (map fst kvs) = {}"
    using fresh by (auto dest: in_set_takeD)
  have nk: "ss ! k \<notin> set (take k ss)"
    using fresh(1) k by (metis distinct_take id_take_nth_drop not_distinct_conv_prefix)
  have "ss ! k \<in> set ss" using k by simp
  with fresh(2) have "ss ! k \<notin> set (map fst kvs)" by auto
  with nk have c1: "member (loaded (JObj kvs1)) (JStr (ss ! k)) = Inr False"
    by (simp add: kvs1_def member_loaded del: loaded.simps)
  have first: "fetch_loop (\<lambda>h. r) t u g (map JStr ss) (loaded (JObj kvs)) 0 L =
      (Inr (loaded (JObj kvs1), k),
       add_log [ErrorUnableToDownload (JStr (ss ! k)) u g, ErrorResponse (Response st bd)]
         (send (detail_req t (ss ! k)) L1))"
  proof -
    have "fetch_loop (\<lambda>h. r) t u g (map JStr ss) (loaded (JObj kvs)) 0 L =
        fetch_loop (\<lambda>h. r) t u g (JStr (ss ! k) # map JStr (drop (Suc k) ss))
          (loaded (JObj kvs1)) (0 + length (take k ss)) L1"
      using fetch_loop_good [OF dk good, of u g _ 0 L] split_ids
      by (simp add: kvs1_def L1_def del: loaded.simps)
    also have "\<dots> = (Inr (loaded (JObj kvs1), k),
       add_log [ErrorUnableToDownload (JStr (ss ! k)) u g, ErrorResponse (Response st bd)]
         (send (detail_req t (ss ! k)) L1))"
      using c1 bad k
        fetch_loop_refused [of "loaded (JObj kvs1)" "JStr (ss ! k)" "\<lambda>h. r" L1 t st bd u g
          "map JStr (drop (Suc k) ss)" "0 + length (take k ss)"]
      by (simp add: detail_req_def del: loaded.simps)
    finally show ?thesis .
  qed
  have step: "adv_step (\<lambda>h. r) t u g label w =
     (Inr (), add_log [if k = 0 then InfoAllDownloaded u g else InfoAdvancedDownloaded k]
                (write_file (adv_file u g) (Doc (JObj kvs1))
                  (add_log [ErrorUnableToDownload (JStr (ss ! k)) u g,
                            ErrorResponse (Response st bd)]
                     (send (detail_req t (ss ! k)) L1))))"
    using adv_step_loop [OF base(1,2,3) it adv, of "\<lambda>h. r" t "loaded (JObj kvs1)" k] first
      dumped_loaded [of "JObj kvs1"]
    by (simp add: L_def del: loaded.simps dumped_loaded)
  have a1: "fst (adv_step (\<lambda>h. r) t u g label w) = Inr ()" using step by simp
  have fW1: "files W1 = (files w)(adv_file u g \<mapsto> File (Doc (JObj kvs1)))"
    using step by (simp add: W1_def L1_def L_def loop_start_def)
  have tW1: "trace W1 = trace w @ map (detail_req t) (take (Suc k) ss)"
    using step k by (simp add: W1_def L1_def L_def loop_start_def take_Suc_conv_app_nth)
  have b1: "files W1 (base_file u g) = Some (File (Doc b))" using fW1 base(1) by simp
  have r1: "adv_records (files W1 (adv_file u g)) = Some (JObj kvs1)"
    using fW1 by (simp add: adv_records_def)
  have tL: "trace (loop_start u g W1) = trace W1" by (simp add: loop_start_def)
  have any: "filter (\<lambda>q. q \<in> set (map (detail_req t) (take k ss)))
        (drop (length (trace W1)) (trace (snd (adv_step R2 t u g label W1)))) = []" for R2
  proof -
    obtain res w2 where
      l: "fetch_loop R2 t u g (map JStr ss) (loaded (JObj kvs1)) 0 (loop_start u g W1)
            = (res, w2)"
      by (cases "fetch_loop R2 t u g (map JStr ss) (loaded (JObj kvs1)) 0 (loop_start u g W1)")
    from l have l': "fetch_loop R2 t u g (map JStr ss)
          (AdvDict (map (\<lambda>p. (KStr (fst p), snd p)) kvs1)) 0 (loop_start u g W1) = (res, w2)"
      by simp
    from fetch_loop_requests [OF l'] tL obtain new where
      n: "trace w2 = trace W1 @ new"
         "\<forall>q\<in>set new. \<exists>rid. q = ReplayData (base_url t) (mode t) (api_token t) rid \<and>
            member (AdvDict (map (\<lambda>p. (KStr (fst p), snd p)) kvs1)) rid = Inr False"
      by (auto simp del: member.simps)
    have "q \<notin> set (map (detail_req t) (take k ss))" if "q \<in> set new" for q
    proof
      assume "q \<in> set (map (detail_req t) (take k ss))"
      then obtain s where s: "s \<in> set (take k ss)" "q = detail_req t s" by auto
      from n(2) that obtain rid where
        rid: "q = ReplayData (base_url t) (mode t) (api_token t) rid"
          "member (AdvDict (map (\<lambda>p. (KStr (fst p), snd p)) kvs1)) rid = Inr False"
        by blast
      from s(2) rid(1) have "rid = JStr s" by (simp add: detail_req_def)
      with rid(2) member_loaded [of "JObj kvs1" s] have "contains (JObj kvs1) s = Inr False"
        by (simp del: member.simps)
      with s(1) show False by (simp add: kvs1_def)
    qed
    then have "filter (\<lambda>q. q \<in> set (map (detail_req t) (take k ss))) new = []"
      by (simp add: filter_empty_conv)
    with adv_step_trace [OF b1 base(2,3) it r1, of R2 t] l n(1) show ?thesis by simp
  qed
  have again: "fst (adv_step (\<lambda>h. r2) t u g label W1) = Inr () \<and>
        trace (snd (adv_step (\<lambda>h. r2) t u g label W1)) =
          trace W1 @ map (detail_req t) (drop k ss) \<and>
        files (snd (adv_step (\<lambda>h. r2) t u g label W1)) (adv_file u g) =
          Some (File (Doc (JObj (kvs1 @ map (fetched_record r2 t) (drop k ss)))))"
    if g2: "\<forall>s\<in>set (drop k ss). record_of (r2 (detail_req t s)) s \<noteq> None" for r2
  proof -
    have sub: "set (take k ss) \<subseteq> set (map fst kvs1)" by (simp add: kvs1_def)
    have dd: "distinct (drop k ss)" using fresh(1) by simp
    have "set (drop k ss) \<inter> set (take k ss) = {}"
      using fresh(1) by (metis append_take_drop_id distinct_append inf_commute)
    moreover have "set (drop k ss) \<inter> set (map fst kvs) = {}"
      using fresh(2) by (auto dest: in_set_dropD)
    ultimately have dj: "set (drop k ss) \<inter> set (map fst kvs1) = {}"
      by (auto simp: kvs1_def)
    have ids2: "map JStr ss = map JStr (take k ss) @ (map JStr (drop k ss) @ [])"
      by (metis append_Nil2 append_take_drop_id map_append)
    have "fetch_loop (\<lambda>h. r2) t u g (map JStr ss) (loaded (JObj kvs1)) 0 (loop_start u g W1) =
        fetch_loop (\<lambda>h. r2) t u g (map JStr (drop k ss) @ []) (loaded (JObj kvs1)) 0
          (loop_start u g W1)"
      using fetch_loop_cached [OF sub, of "\<lambda>h. r2" t u g "map JStr (drop k ss) @ []" 0
          "loop_start u g W1"] ids2
      by (simp del: loaded.simps)
    also have "\<dots> = (Inr (loaded (JObj (kvs1 @ map (fetched_record r2 t) (drop k ss))),
                           0 + length (drop k ss)),
        (loop_start u g W1)\<lparr>trace := trace (loop_start u g W1) @
           map (detail_req t) (drop k ss)\<rparr>)"
      using fetch_loop_good [OF dd dj g2, of u g "[]" 0 "loop_start u g W1"]
      by (simp del: loaded.simps)
    finally have l2: "fetch_loop (\<lambda>h. r2) t u g (map JStr ss) (loaded (JObj kvs1)) 0
          (loop_start u g W1) =
        (Inr (loaded (JObj (kvs1 @ map (fetched_record r2 t) (drop k ss))),
              0 + length (drop k ss)),
         (loop_start u g W1)\<lparr>trace := trace (loop_start u g W1) @
           map (detail_req t) (drop k ss)\<rparr>)" .
    from adv_step_loop [OF b1 base(2,3) it r1 l2] tL
      dumped_loaded [of "JObj (kvs1 @ map (fetched_record r2 t) (drop k ss))"]
    show ?thesis by (simp del: loaded.simps dumped_loaded)
  qed
  from a1 fW1 b1 tW1 any again show ?thesis
    unfolding W1_def kvs1_def by simp
qed


theorem C1_resume_after_refusal_witness:
  "fst (adv_step (\<lambda>h. remote_ab 200 500) tag1 ''n'' ''qm'' ''Quick Match''
          (qm_world listing_ab cached_x)) = Inr () \<and>
   files (snd (adv_step (\<lambda>h. remote_ab 200 500) tag1 ''n'' ''qm'' ''Quick Match''
          (qm_world listing_ab cached_x))) (adv_file ''n'' ''qm'') =
     Some (File (Doc (JObj [(''x'', JInt 1), (''a'', JStr ''payload of a'')]))) \<and>
   trace (snd (adv_step (\<lambda>h. remote_ab 200 500) tag1 ''n'' ''qm'' ''Quick Match''
          (qm_world listing_ab cached_x))) =
     [detail_req tag1 ''a'', detail_req tag1 ''b''] \<and>
   trace (snd (adv_step (\<lambda>h. remote_ab 200 200) tag1 ''n'' ''qm'' ''Quick Match''
          (snd (adv_step (\<lambda>h. remote_ab 200 500) tag1 ''n'' ''qm'' ''Quick Match''
             (qm_world listing_ab cached_x))))) =
     [detail_req tag1 ''a'', detail_req tag1 ''b'', detail_req tag1 ''b''] \<and>
   files (snd (adv_step (\<lambda>h. remote_ab 200 200) tag1 ''n'' ''qm'' ''Quick Match''
          (snd (adv_step (\<lambda>h. remote_ab 200 500) tag1 ''n'' ''qm'' ''Quick Match''
             (qm_world listing_ab cached_x))))) (adv_file ''n'' ''qm'') =
     Some (File (Doc (JObj [(''x'', JInt 1), (''a'', JStr ''payload of a''),
                            (''b'', JStr ''payload of b'')])))"
proof -
  have base: "files (qm_world listing_ab cached_x) (base_file ''n'' ''qm'') =
        Some (File (Doc listing_ab))" "truthy listing_ab"
      "getitem listing_ab ''Quick Match'' = Inr (JArr (map JStr [''a'', ''b'']))"
    by (simp_all add: qm_world_def listing_ab_def)
  have adv: "adv_records (files (qm_world listing_ab cached_x) (adv_file ''n'' ''qm'')) =
      Some (JObj [(''x'', JInt 1)])"
    by (simp add: qm_world_def adv_records_def cached_x_def)
  have fresh: "distinct [''a'', ''b'']"
      "set [''a'', ''b''] \<inter> set (map fst [(''x'', JInt 1)]) = {}"
    by simp_all
  have k: "Suc 0 < length [''a'', ''b'']" by simp
  have good: "\<forall>s\<in>set (take (Suc 0) [''a'', ''b'']).
      record_of (remote_ab 200 500 (detail_req tag1 s)) s \<noteq> None"
    by (simp add: record_of_def detail_req_def)
  have bad: "remote_ab 200 500 (detail_req tag1 ([''a'', ''b''] ! Suc 0)) =
      Response 500 (JsonBody (JObj [(''b'', JStr ''payload of b'')]))" "(500::int) \<noteq> 200"
    by (simp_all add: detail_req_def)
  have good2: "\<forall>s\<in>set (drop (Suc 0) [''a'', ''b'']).
      record_of (remote_ab 200 200 (detail_req tag1 s)) s \<noteq> None"
    by (simp add: record_of_def detail_req_def)
  have t0: "trace (qm_world listing_ab cached_x) = []"
    by (simp add: qm_world_def no_files_def)
  from C1_resume_after_refusal [OF base adv fresh k good bad] good2 t0
  show ?thesis
    by (simp add: fetched_record_def record_of_def detail_req_def)
qed

text \<open>
  The claim as written fails at a status from 201 to 299: the first detail response has
  status 201 and holds the record, the second has status 500, and the advanced file
  ends with no record rather than the first one.
\<close>

theorem C1_status_201_counterexample:
  "(200::int) \<le> 201 \<and> (201::int) < 300 \<and> (300::int) \<le> 500 \<and>
   remote_ab 201 500 (detail_req tag1 ''a'') =
     Response 201 (JsonBody (JObj [(''a'', JStr ''payload of a'')])) \<and>
   remote_ab 201 500 (detail_req tag1 ''b'') =
     Response 500 (JsonBody (JObj [(''b'', JStr ''payload of b'')])) \<and>
   files (snd (adv_step (\<lambda>h. remote_ab 201 500) tag1 ''n'' ''qm'' ''Quick Match''
          (qm_world listing_ab (JObj [])))) (adv_file ''n'' ''qm'') =
     Some (File (Doc (JObj []))) \<and>
   trace (snd (adv_step (\<lambda>h. remote_ab 201 500) tag1 ''n'' ''qm'' ''Quick Match''
          (qm_world listing_ab (JObj [])))) = [detail_req tag1 ''a'']"
  by code_simp

subsection \<open>The keys of the advanced record set are listed identifiers\<close>

lemma subset_inv_cong:
  "fs' (adv_file u g) = fs (adv_file u g) \<Longrightarrow> fs' (base_file u g) = fs (base_file u g) \<Longrightarrow>
   subset_inv fs' u g label = subset_inv fs u g label"
  by (simp add: subset_inv_def)

lemma subset_inv_blank:
  "fs (adv_file u g) = None \<or> fs (adv_file u g) = Some (File Blank) \<Longrightarrow>
   subset_inv fs u g label"
  by (auto simp: subset_inv_def keys_listed_def)

lemma keys_listed_nothing:
  "keys_listed n [] \<Longrightarrow> keys_listed n ids"
  by (auto simp: keys_listed_def list_all_iff
      split: option.splits node.splits content.splits json.splits)

lemma listed_ids_no_file: "\<forall>c. n \<noteq> Some (File c) \<Longrightarrow> listed_ids n label = []"
  by (auto simp: listed_ids_def split: option.splits node.splits)

text \<open>While no listing file is there, the invariant says that no record is cached.\<close>

lemma subset_inv_unlisted:
  assumes "subset_inv fs u g label" and "\<forall>c. fs (base_file u g) \<noteq> Some (File c)"
    and "fs' (adv_file u g) = fs (adv_file u g)"
  shows "subset_inv fs' u g label"
proof -
  from assms(2) have "listed_ids (fs (base_file u g)) label = []"
    by (rule listed_ids_no_file)
  with assms(1,3) show ?thesis
    by (simp add: subset_inv_def keys_listed_nothing)
qed

text \<open>
  The paths of two users never meet: the last component is the category, and the one
  before is \<^verbatim>\<open>base\<close> or \<^verbatim>\<open>advanced\<close>.
\<close>

lemma GAME_TYPES_names:
  "(g, l) \<in> set GAME_TYPES \<Longrightarrow> g = ''qm'' \<or> g = ''sl'' \<or> g = ''ud'' \<or> g = ''aram''"
  by (auto simp: GAME_TYPES_def)

lemma other_paths:
  assumes "(g, l) \<in> set GAME_TYPES" and "(g1, l1) \<in> set GAME_TYPES"
  shows "adv_file u g \<noteq> base_file u1 g1"
    and "base_file u g \<noteq> adv_file u1 g1"
    and "adv_file u1 g1 = adv_file u g \<Longrightarrow> u1 = u \<and> g1 = g"
    and "base_file u g \<noteq> u1 @ ''/base''"
    and "base_file u g \<noteq> u1 @ ''/advanced''"
    and "adv_file u g \<noteq> u1 @ ''/base''"
    and "adv_file u g \<noteq> u1 @ ''/advanced''"
proof -
  from assms GAME_TYPES_names
  have g: "g = ''qm'' \<or> g = ''sl'' \<or> g = ''ud'' \<or> g = ''aram''"
    and g1: "g1 = ''qm'' \<or> g1 = ''sl'' \<or> g1 = ''ud'' \<or> g1 = ''aram''"
    by blast+
  show "adv_file u g \<noteq> base_file u1 g1"
  proof
    assume "adv_file u g = base_file u1 g1"
    then have "rev (adv_file u g) = rev (base_file u1 g1)" by simp
    with g g1 show False by (auto simp: adv_file_def base_file_def)
  qed
  show "base_file u g \<noteq> adv_file u1 g1"
  proof
    assume "base_file u g = adv_file u1 g1"
    then have "rev (base_file u g) = rev (adv_file u1 g1)" by simp
    with g g1 show False by (auto simp: adv_file_def base_file_def)
  qed
  show "u1 = u \<and> g1 = g" if "adv_file u1 g1 = adv_file u g"
  proof -
    from that have "rev (adv_file u1 g1) = rev (adv_file u g)" by simp
    with g g1 show ?thesis by (auto simp: adv_file_def)
  qed
  show "base_file u g \<noteq> u1 @ ''/base''"
  proof
    assume "base_file u g = u1 @ ''/base''"
    then have "rev (base_file u g) = rev (u1 @ ''/base'')" by simp
    with g show False by (auto simp: base_file_def)
  qed
  show "base_file u g \<noteq> u1 @ ''/advanced''"
  proof
    assume "base_file u g = u1 @ ''/advanced''"
    then have "rev (base_file u g) = rev (u1 @ ''/advanced'')" by simp
    with g show False by (auto simp: base_file_def)
  qed
  show "adv_file u g \<noteq> u1 @ ''/base''"
  proof
    assume "adv_file u g = u1 @ ''/base''"
    then have "rev (adv_file u g) = rev (u1 @ ''/base'')" by simp
    with g show False by (auto simp: adv_file_def)
  qed
  show "adv_file u g \<noteq> u1 @ ''/advanced''"
  proof
    assume "adv_file u g = u1 @ ''/advanced''"
    then have "rev (adv_file u g) = rev (u1 @ ''/advanced'')" by simp
    with g show False by (auto simp: adv_file_def)
  qed
qed

lemma GAME_TYPES_keys:
  "(g, l) \<in> set GAME_TYPES \<Longrightarrow> (g, l') \<in> set GAME_TYPES \<Longrightarrow> l' = l"
  by (auto simp: GAME_TYPES_def)

text \<open>How the invariant is passed on from step to step.\<close>

lemma carriedI:
  assumes "\<And>c. fs (base_file u g) = Some (File c) \<Longrightarrow> fs' (base_file u g) = Some (File c)"
    and "list_all is_str (listed_ids (fs' (base_file u g)) label) \<Longrightarrow>
         subset_inv fs u g label \<Longrightarrow> subset_inv fs' u g label"
  shows "carried u g label fs fs'"
  using assms by (auto simp: carried_def split: option.splits node.splits)

lemma carried_base:
  "carried u g label fs fs' \<Longrightarrow> fs (base_file u g) = Some (File c) \<Longrightarrow>
   fs' (base_file u g) = Some (File c)"
  by (simp add: carried_def)

lemma carried_inv:
  "carried u g label fs fs' \<Longrightarrow> list_all is_str (listed_ids (fs' (base_file u g)) label) \<Longrightarrow>
   subset_inv fs u g label \<Longrightarrow> subset_inv fs' u g label"
  by (simp add: carried_def)

lemma carried_same:
  assumes "fs' (base_file u g) = fs (base_file u g)" and "fs' (adv_file u g) = fs (adv_file u g)"
  shows "carried u g label fs fs'"
proof (rule carriedI)
  fix c assume "fs (base_file u g) = Some (File c)"
  with assms(1) show "fs' (base_file u g) = Some (File c)" by simp
next
  assume "subset_inv fs u g label"
  with subset_inv_cong [OF assms(2,1), of label] show "subset_inv fs' u g label" by simp
qed

lemma carried_trans:
  assumes "carried u g label fs fs1" and "carried u g label fs1 fs2"
  shows "carried u g label fs fs2"
proof (rule carriedI)
  fix c assume "fs (base_file u g) = Some (File c)"
  from carried_base [OF assms(2) carried_base [OF assms(1) this]]
  show "fs2 (base_file u g) = Some (File c)" .
next
  assume s2: "list_all is_str (listed_ids (fs2 (base_file u g)) label)"
    and i: "subset_inv fs u g label"
  have s1: "list_all is_str (listed_ids (fs1 (base_file u g)) label)"
  proof (cases "\<exists>c. fs1 (base_file u g) = Some (File c)")
    case True
    then obtain c where c: "fs1 (base_file u g) = Some (File c)" by blast
    from carried_base [OF assms(2) c] c s2 show ?thesis by simp
  next
    case False
    then have "listed_ids (fs1 (base_file u g)) label = []"
      using listed_ids_no_file by blast
    then show ?thesis by simp
  qed
  from carried_inv [OF assms(1) s1 i] have "subset_inv fs1 u g label" .
  from carried_inv [OF assms(2) s2 this] show "subset_inv fs2 u g label" .
qed

lemma makedirs_carried:
  assumes "makedirs d w = (r, w')" and "d = u1 @ ''/base'' \<or> d = u1 @ ''/advanced''"
    and "(g, label) \<in> set GAME_TYPES"
  shows "carried u g label (files w) (files w')"
proof -
  from assms(2) other_paths(4-7) [OF assms(3) assms(3)]
  have "adv_file u g \<noteq> d" "base_file u g \<noteq> d" by auto
  with makedirs_files [OF assms(1)]
  have "files w' (adv_file u g) = files w (adv_file u g)"
    "files w' (base_file u g) = files w (base_file u g)" by simp_all
  then show ?thesis by (simp add: carried_same)
qed

lemma base_step_carried:
  assumes s: "base_step R t u1 g1 l1 w = (r, w')"
    and gt: "(g, label) \<in> set GAME_TYPES" "(g1, l1) \<in> set GAME_TYPES"
  shows "carried u g label (files w) (files w')"
proof -
  have adv: "files w' (adv_file u g) = files w (adv_file u g)"
    using base_step_frame [OF s] other_paths(1) [OF gt] by simp
  show ?thesis
  proof (cases "base_file u1 g1 = base_file u g")
    case False
    with base_step_frame [OF s]
    have "files w' (base_file u g) = files w (base_file u g)" by simp
    with adv show ?thesis by (simp add: carried_same)
  next
    case True
    show ?thesis
    proof (rule carriedI)
      fix c assume "files w (base_file u g) = Some (File c)"
      with True have "files w (base_file u1 g1) = Some (File c)" by simp
      from base_step_present [OF this s] \<open>files w (base_file u g) = Some (File c)\<close>
      show "files w' (base_file u g) = Some (File c)" by simp
    next
      assume i: "subset_inv (files w) u g label"
      show "subset_inv (files w') u g label"
      proof (cases "\<exists>c. files w (base_file u g) = Some (File c)")
        case c: True
        then obtain c where "files w (base_file u1 g1) = Some (File c)" using True by auto
        from base_step_present [OF this s] i show ?thesis by simp
      next
        case False
        from subset_inv_unlisted [of "files w" u g label "files w'"] i False adv
        show ?thesis by simp
      qed
    qed
  qed
qed

lemma base_loop_carried:
  "base_loop R t u1 gls w = (r, w') \<Longrightarrow> set gls \<subseteq> set GAME_TYPES \<Longrightarrow>
   (g, label) \<in> set GAME_TYPES \<Longrightarrow> carried u g label (files w) (files w')"
proof (induction gls arbitrary: w)
  case Nil
  then show ?case by (simp add: carried_same)
next
  case (Cons gl gls)
  obtain g1 l1 where gl: "gl = (g1, l1)" by (cases gl)
  obtain r1 w1 where s: "base_step R t u1 g1 l1 w = (r1, w1)"
    by (cases "base_step R t u1 g1 l1 w")
  from Cons.prems(2) gl have in1: "(g1, l1) \<in> set GAME_TYPES" and rest: "set gls \<subseteq> set GAME_TYPES"
    by simp_all
  from base_step_carried [OF s Cons.prems(3) in1]
  have c1: "carried u g label (files w) (files w1)" .
  show ?case
  proof (cases r1)
    case (Inl e)
    with Cons.prems(1) s gl c1 show ?thesis by simp
  next
    case (Inr x)
    with Cons.prems(1) s gl have "base_loop R t u1 gls w1 = (r, w')" by simp
    from carried_trans [OF c1 Cons.IH [OF this rest Cons.prems(3)]] show ?thesis .
  qed
qed

lemma download_base_replays_carried:
  assumes "(g, label) \<in> set GAME_TYPES"
  shows "carried u g label (files w) (files (snd (download_base_replays R t w)))"
proof (cases "username_of t")
  case (Inl e)
  then show ?thesis by (simp add: download_base_replays_def carried_same)
next
  case (Inr u1)
  obtain r1 w1 where m: "makedirs (u1 @ ''/base'') w = (r1, w1)"
    by (cases "makedirs (u1 @ ''/base'') w")
  from makedirs_carried [OF m _ assms] have c1: "carried u g label (files w) (files w1)"
    by simp
  show ?thesis
  proof (cases r1)
    case (Inl e)
    with m Inr c1 show ?thesis by (simp add: download_base_replays_def)
  next
    case r1: (Inr x)
    obtain r2 w2 where l: "base_loop R t u1 GAME_TYPES w1 = (r2, w2)"
      by (cases "base_loop R t u1 GAME_TYPES w1")
    from carried_trans [OF c1 base_loop_carried [OF l _ assms]] r1 m Inr l
    show ?thesis by (simp add: download_base_replays_def)
  qed
qed

text \<open>The loop over string identifiers adds keys only for identifiers of the list.\<close>

lemma fetch_loop_outcomes:
  assumes "contains a s = Inr False"
  obtains (go) j v kvs where "R (trace w) (detail_req t s) = Response 200 (JsonBody j)"
      "getitem j s = Inr v" "a = JObj kvs"
      "fetch_loop R t u g (JStr s # rest) (loaded a) c w =
         fetch_loop R t u g rest (loaded (JObj (dict_set kvs s v))) (c + 1)
           (send (detail_req t s) w)"
    | (refuse) st bd where "R (trace w) (detail_req t s) = Response st bd" "st \<noteq> 200"
      "fetch_loop R t u g (JStr s # rest) (loaded a) c w =
         (Inr (loaded a, c),
          add_log [ErrorUnableToDownload (JStr s) u g, ErrorResponse (Response st bd)]
            (send (detail_req t s) w))"
    | (raise) e where
      "fetch_loop R t u g (JStr s # rest) (loaded a) c w = (Inl e, send (detail_req t s) w)"
proof -
  from assms have m: "member (loaded a) (JStr s) = Inr False"
    by (simp add: member_loaded)
  show ?thesis
  proof (cases "R (trace w) (detail_req t s)")
    case ConnectionFailed
    with m fetch_loop_transport [of "loaded a" "JStr s" R w t u g rest c]
    have "fetch_loop R t u g (JStr s # rest) (loaded a) c w =
        (Inl RequestException, send (detail_req t s) w)"
      by (simp add: detail_req_def)
    with raise show ?thesis .
  next
    case (Response st bd)
    show ?thesis
    proof (cases "st = 200")
      case False
      with m Response fetch_loop_refused [of "loaded a" "JStr s" R w t st bd u g rest c]
      have "fetch_loop R t u g (JStr s # rest) (loaded a) c w =
         (Inr (loaded a, c),
          add_log [ErrorUnableToDownload (JStr s) u g, ErrorResponse (Response st bd)]
            (send (detail_req t s) w))"
        by (simp add: detail_req_def)
      with refuse Response False show ?thesis by blast
    next
      case True
      show ?thesis
      proof (cases bd)
        case NotJson
        with m Response True fetch_loop_not_json [of "loaded a" "JStr s" R w t u g rest c]
        have "fetch_loop R t u g (JStr s # rest) (loaded a) c w =
            (Inl JSONDecodeError, send (detail_req t s) w)"
          by (simp add: detail_req_def)
        with raise show ?thesis .
      next
        case (JsonBody j)
        show ?thesis
        proof (cases "getitem j s")
          case (Inl e)
          then have "subscript j (JStr s) = Inl e" by (simp add: subscript_str)
          with m Response True JsonBody
            fetch_loop_no_key [of "loaded a" "JStr s" R w t j e u g rest c]
          have "fetch_loop R t u g (JStr s # rest) (loaded a) c w =
              (Inl e, send (detail_req t s) w)"
            by (simp add: detail_req_def)
          with raise show ?thesis .
        next
          case (Inr v)
          then have sb: "subscript j (JStr s) = Inr (KStr s, v)" by (simp add: subscript_str)
          show ?thesis
          proof (cases "\<exists>kvs. a = JObj kvs")
            case False
            then have "setitem (loaded a) (KStr s) v = Inl TypeError"
              by (cases a) simp_all
            with m Response True JsonBody sb
              fetch_loop_no_store [of "loaded a" "JStr s" R w t j "KStr s" v TypeError u g rest c]
            have "fetch_loop R t u g (JStr s # rest) (loaded a) c w =
                (Inl TypeError, send (detail_req t s) w)"
              by (simp add: detail_req_def)
            with raise show ?thesis .
          next
            case kv: True
            then obtain kvs where a: "a = JObj kvs" by blast
            from a setitem_loaded [of kvs s v]
            have "setitem (loaded a) (KStr s) v = Inr (loaded (JObj (dict_set kvs s v)))"
              by simp
            with m Response True JsonBody sb
              fetch_loop_stored [of "loaded a" "JStr s" R w t j "KStr s" v
                "loaded (JObj (dict_set kvs s v))" u g rest c]
            have "fetch_loop R t u g (JStr s # rest) (loaded a) c w =
                fetch_loop R t u g rest (loaded (JObj (dict_set kvs s v))) (c + 1)
                  (send (detail_req t s) w)"
              by (simp add: detail_req_def)
            with go Response True JsonBody Inr a show ?thesis by blast
          qed
        qed
      qed
    qed
  qed
qed

lemma fetch_loop_unreadable:
  "contains a s = Inl e \<Longrightarrow> fetch_loop R t u g (JStr s # rest) (loaded a) c w = (Inl e, w)"
  using fetch_loop_unhashable [of "loaded a" "JStr s" e] by (simp add: member_loaded)

lemma fetch_loop_present:
  "contains a s = Inr True \<Longrightarrow>
   fetch_loop R t u g (JStr s # rest) (loaded a) c w = fetch_loop R t u g rest (loaded a) c w"
  using fetch_loop_skip [of "loaded a" "JStr s"] by (simp add: member_loaded)

lemma fetch_loop_keys:
  "fetch_loop R t u g (map JStr ss) (loaded (JObj kvs)) c w = (Inr (a', c'), w') \<Longrightarrow>
   \<exists>kvs'. a' = loaded (JObj kvs') \<and> fst ` set kvs' \<subseteq> fst ` set kvs \<union> set ss"
proof (induction ss arbitrary: kvs c w)
  case Nil
  then show ?case by auto
next
  case (Cons s rest)
  show ?case
  proof (cases "s \<in> set (map fst kvs)")
    case True
    then have "contains (JObj kvs) s = Inr True" by simp
    from fetch_loop_present [OF this, of R t u g "map JStr rest" c w] Cons.prems
    have "fetch_loop R t u g (map JStr rest) (loaded (JObj kvs)) c w = (Inr (a', c'), w')"
      by simp
    from Cons.IH [OF this] show ?thesis by auto
  next
    case False
    then have nc: "contains (JObj kvs) s = Inr False" by simp
    show ?thesis
    proof (cases rule: fetch_loop_outcomes [OF nc, of R w t u g "map JStr rest" c])
      case (1 j v kvs1)
      then have k1: "kvs1 = kvs" by simp
      from 1(4) Cons.prems k1
      have "fetch_loop R t u g (map JStr rest) (loaded (JObj (dict_set kvs s v))) (c + 1)
              (send (detail_req t s) w) = (Inr (a', c'), w')"
        by simp
      from Cons.IH [OF this] obtain kvs' where
        "a' = loaded (JObj kvs')"
        "fst ` set kvs' \<subseteq> fst ` set (dict_set kvs s v) \<union> set rest"
        by blast
      then show ?thesis by (auto simp: dict_set_keys simp del: loaded.simps)
    next
      case (2 st bd)
      with Cons.prems have "a' = loaded (JObj kvs)" by simp
      then show ?thesis by blast
    next
      case (3 e)
      with Cons.prems show ?thesis by simp
    qed
  qed
qed

lemma strings_are_mapped: "list_all is_str ids \<Longrightarrow> \<exists>ss. ids = map JStr ss"
proof (induction ids)
  case Nil
  then show ?case by simp
next
  case (Cons x xs)
  then obtain ss where "xs = map JStr ss" by auto
  moreover from Cons.prems obtain s where "x = JStr s" by (cases x) simp_all
  ultimately have "x # xs = map JStr (s # ss)" by simp
  then show ?case ..
qed

lemma keys_listed_loaded:
  "adv_records n = Some a \<Longrightarrow> keys_listed n ids \<Longrightarrow> keys_listed (Some (File (Doc a))) ids"
  by (auto simp: adv_records_def keys_listed_def
      split: option.splits node.splits content.splits)

lemma keys_listed_object:
  "keys_listed (Some (File (Doc a))) ids \<Longrightarrow>
   \<exists>kvs. a = JObj kvs \<and> fst ` set kvs \<subseteq> {s. JStr s \<in> set ids}"
  by (cases a) (auto simp: keys_listed_def list_all_iff)

lemma keys_listed_objectI:
  "fst ` set kvs \<subseteq> {s. JStr s \<in> set ids} \<Longrightarrow> keys_listed (Some (File (Doc (JObj kvs)))) ids"
  by (auto simp: keys_listed_def list_all_iff)

text \<open>
  From the emptied advanced file on: the file ends empty, or holding an object whose
  keys are listed; no other path is written.
\<close>

lemma reconcile_inv:
  assumes r: "reconcile R t u g label basec (loaded a) w = (res, w')"
    and e: "files w (adv_file u g) = Some (File Blank)"
    and k: "keys_listed (Some (File (Doc a))) (listed_ids (Some (File basec)) label)"
    and str: "list_all is_str (listed_ids (Some (File basec)) label)"
  shows "keys_listed (files w' (adv_file u g)) (listed_ids (Some (File basec)) label)"
proof (cases basec)
  case Blank
  with r e show ?thesis by (simp add: reconcile_def keys_listed_def)
next
  case Junk
  with r e show ?thesis by (simp add: reconcile_def keys_listed_def)
next
  case (Doc b)
  show ?thesis
  proof (cases "truthy b")
    case False
    with r Doc have "w' = add_log [InfoNoReplaysExist u g] (write_file (adv_file u g) (Doc a) w)"
      using reconcile_empty [of b label R t u g "loaded a" w] by simp
    with k show ?thesis by simp
  next
    case True
    show ?thesis
    proof (cases "getitem b label")
      case (Inl err)
      with r Doc True e show ?thesis by (simp add: reconcile_def keys_listed_def)
    next
      case listing: (Inr listing)
      show ?thesis
      proof (cases "py_iter listing")
        case (Inl err)
        with r Doc True e listing show ?thesis by (simp add: reconcile_def keys_listed_def)
      next
        case ids: (Inr ids)
        have li: "listed_ids (Some (File basec)) label = ids"
          using Doc listing ids by (simp add: listed_ids_def)
        from str li strings_are_mapped obtain ss where ss: "ids = map JStr ss" by blast
        from keys_listed_object [OF k] li obtain kvs where
          a: "a = JObj kvs" and ks: "fst ` set kvs \<subseteq> {s. JStr s \<in> set ids}"
          by auto
        obtain lres w1 where l: "fetch_loop R t u g ids (loaded a) 0 w = (lres, w1)"
          by (cases "fetch_loop R t u g ids (loaded a) 0 w")
        from fetch_loop_files [OF l] have f1: "files w1 = files w" .
        show ?thesis
        proof (cases lres)
          case (Inl err)
          with r Doc True listing ids l have "w' = w1"
            using reconcile_loop [OF True listing ids, of R t u g "loaded a" w] by simp
          with f1 e show ?thesis by (simp add: keys_listed_def)
        next
          case (Inr ac)
          obtain a' cnt where ac: "ac = (a', cnt)" by (cases ac)
          from l Inr ac a ss fetch_loop_keys [of R t u g ss kvs 0 w a' cnt w1]
          obtain kvs' where a': "a' = loaded (JObj kvs')"
            and ks': "fst ` set kvs' \<subseteq> fst ` set kvs \<union> set ss"
            by auto
          from ss have "set ss \<subseteq> {s. JStr s \<in> set ids}" by auto
          with ks ks' have "fst ` set kvs' \<subseteq> {s. JStr s \<in> set ids}" by blast
          from keys_listed_objectI [OF this]
          have kl: "keys_listed (Some (File (Doc (JObj kvs')))) ids" .
          from a' have da: "dumped a' = JObj kvs'" using dumped_loaded [of "JObj kvs'"] by simp
          from r Doc True listing ids l Inr ac
          have "w' = add_log [if cnt = 0 then InfoAllDownloaded u g
                              else InfoAdvancedDownloaded cnt]
                       (write_file (adv_file u g) (Doc (dumped a')) w1)"
            using reconcile_loop [OF True listing ids, of R t u g "loaded a" w] by simp
          with f1 kl li da show ?thesis by simp
        qed
      qed
    qed
  qed
qed

lemma reconcile_frame:
  assumes r: "reconcile R t u g label basec a w = (res, w')" and p: "p \<noteq> adv_file u g"
  shows "files w' p = files w p"
proof (cases "\<exists>b listing ids. basec = Doc b \<and> truthy b \<and> getitem b label = Inr listing \<and>
    py_iter listing = Inr ids")
  case True
  then obtain b listing ids where h: "basec = Doc b" "truthy b"
    "getitem b label = Inr listing" "py_iter listing = Inr ids" by blast
  obtain lres w1 where l: "fetch_loop R t u g ids a 0 w = (lres, w1)"
    by (cases "fetch_loop R t u g ids a 0 w")
  from fetch_loop_files [OF l] have "files w1 = files w" .
  with r h l p reconcile_loop [OF h(2-4), of R t u g a w] show ?thesis
    by (cases lres) auto
next
  case False
  with r p show ?thesis
    by (auto simp: reconcile_def split: content.splits if_splits sum.splits)
qed

lemma adv_step_unreconciled:
  assumes "adv_step R t u g label w = (r, w')"
    and "(\<forall>c. files w (base_file u g) \<noteq> Some (File c)) \<or>
         adv_records (files w (adv_file u g)) = None"
  shows "files w' = files w \<or>
         (files w (adv_file u g) = None \<and> files w' = (files w)(adv_file u g \<mapsto> File Blank))"
  using assms
  by (auto simp: adv_step_def load_adv_def adv_records_def Let_def
      split: option.splits node.splits content.splits)

lemma adv_step_frame:
  assumes s: "adv_step R t u g label w = (res, w')" and p: "p \<noteq> adv_file u g"
  shows "files w' p = files w p"
proof (cases "\<exists>c a. files w (base_file u g) = Some (File c) \<and>
    adv_records (files w (adv_file u g)) = Some a")
  case True
  then obtain c a where c: "files w (base_file u g) = Some (File c)"
    and a: "adv_records (files w (adv_file u g)) = Some a" by blast
  from s adv_step_reconcile [OF a c, of R t label]
  have "reconcile R t u g label c (loaded a) (loop_start u g w) = (res, w')" by simp
  from reconcile_frame [OF this p] p show ?thesis by (simp add: loop_start_def)
next
  case False
  then have "(\<forall>c. files w (base_file u g) \<noteq> Some (File c)) \<or>
         adv_records (files w (adv_file u g)) = None"
    by auto
  from adv_step_unreconciled [OF s this] p show ?thesis by auto
qed

lemma adv_step_inv:
  assumes s: "adv_step R t u g label w = (r, w')" and i: "subset_inv (files w) u g label"
    and str: "list_all is_str (listed_ids (files w (base_file u g)) label)"
  shows "subset_inv (files w') u g label"
proof (cases "\<exists>c a. files w (base_file u g) = Some (File c) \<and>
    adv_records (files w (adv_file u g)) = Some a")
  case True
  then obtain c a where c: "files w (base_file u g) = Some (File c)"
    and a: "adv_records (files w (adv_file u g)) = Some a" by blast
  from s adv_step_reconcile [OF a c, of R t label]
  have rc: "reconcile R t u g label c (loaded a) (loop_start u g w) = (r, w')" by simp
  from i c have "keys_listed (files w (adv_file u g)) (listed_ids (Some (File c)) label)"
    by (simp add: subset_inv_def)
  from keys_listed_loaded [OF a this]
  have k: "keys_listed (Some (File (Doc a))) (listed_ids (Some (File c)) label)" .
  have e: "files (loop_start u g w) (adv_file u g) = Some (File Blank)"
    by (simp add: loop_start_def)
  from str c have str': "list_all is_str (listed_ids (Some (File c)) label)" by simp
  from adv_step_frame [OF s, of "base_file u g"] c
  have "files w' (base_file u g) = Some (File c)" by simp
  with reconcile_inv [OF rc e k str'] show ?thesis by (simp add: subset_inv_def)
next
  case False
  then have "(\<forall>c. files w (base_file u g) \<noteq> Some (File c)) \<or>
         adv_records (files w (adv_file u g)) = None"
    by auto
  from adv_step_unreconciled [OF s this] show ?thesis
  proof
    assume "files w' = files w"
    with i show ?thesis by simp
  next
    assume n: "files w (adv_file u g) = None \<and>
        files w' = (files w)(adv_file u g \<mapsto> File Blank)"
    then show ?thesis by (simp add: subset_inv_blank)
  qed
qed

lemma adv_step_carried:
  assumes s: "adv_step R t u1 g1 l1 w = (r, w')"
    and gt: "(g, label) \<in> set GAME_TYPES" "(g1, l1) \<in> set GAME_TYPES"
  shows "carried u g label (files w) (files w')"
proof -
  have base: "files w' (base_file u g) = files w (base_file u g)"
    using adv_step_frame [OF s, of "base_file u g"] other_paths(2) [OF gt] by simp
  show ?thesis
  proof (cases "adv_file u1 g1 = adv_file u g")
    case False
    with adv_step_frame [OF s, of "adv_file u g"]
    have "files w' (adv_file u g) = files w (adv_file u g)" by simp
    with base show ?thesis by (simp add: carried_same)
  next
    case True
    from other_paths(3) [OF gt True] have same: "u1 = u" "g1 = g" by simp_all
    with gt GAME_TYPES_keys have l1: "l1 = label" by blast
    show ?thesis
    proof (rule carriedI)
      fix c assume "files w (base_file u g) = Some (File c)"
      with base show "files w' (base_file u g) = Some (File c)" by simp
    next
      assume "list_all is_str (listed_ids (files w' (base_file u g)) label)"
        and i: "subset_inv (files w) u g label"
      with base have "list_all is_str (listed_ids (files w (base_file u g)) label)" by simp
      from adv_step_inv [OF _ i this] s same l1 show "subset_inv (files w') u g label"
        by simp
    qed
  qed
qed

lemma adv_loop_carried:
  "adv_loop R t u1 gls w = (r, w') \<Longrightarrow> set gls \<subseteq> set GAME_TYPES \<Longrightarrow>
   (g, label) \<in> set GAME_TYPES \<Longrightarrow> carried u g label (files w) (files w')"
proof (induction gls arbitrary: w)
  case Nil
  then show ?case by (simp add: carried_same)
next
  case (Cons gl gls)
  obtain g1 l1 where gl: "gl = (g1, l1)" by (cases gl)
  obtain r1 w1 where s: "adv_step R t u1 g1 l1 w = (r1, w1)"
    by (cases "adv_step R t u1 g1 l1 w")
  from Cons.prems(2) gl have in1: "(g1, l1) \<in> set GAME_TYPES" and rest: "set gls \<subseteq> set GAME_TYPES"
    by simp_all
  from adv_step_carried [OF s Cons.prems(3) in1]
  have c1: "carried u g label (files w) (files w1)" .
  show ?case
  proof (cases r1)
    case (Inl e)
    with Cons.prems(1) s gl c1 show ?thesis by simp
  next
    case (Inr x)
    with Cons.prems(1) s gl have "adv_loop R t u1 gls w1 = (r, w')" by simp
    from carried_trans [OF c1 Cons.IH [OF this rest Cons.prems(3)]] show ?thesis .
  qed
qed

lemma download_advanced_replays_carried:
  assumes "(g, label) \<in> set GAME_TYPES"
  shows "carried u g label (files w) (files (snd (download_advanced_replays R t w)))"
proof (cases "username_of t")
  case (Inl e)
  then show ?thesis by (simp add: download_advanced_replays_def carried_same)
next
  case (Inr u1)
  obtain r1 w1 where m: "makedirs (u1 @ ''/advanced'') w = (r1, w1)"
    by (cases "makedirs (u1 @ ''/advanced'') w")
  from makedirs_carried [OF m _ assms] have c1: "carried u g label (files w) (files w1)"
    by simp
  show ?thesis
  proof (cases r1)
    case (Inl e)
    with m Inr c1 show ?thesis by (simp add: download_advanced_replays_def)
  next
    case r1: (Inr x)
    obtain r2 w2 where l: "adv_loop R t u1 GAME_TYPES w1 = (r2, w2)"
      by (cases "adv_loop R t u1 GAME_TYPES w1")
    from carried_trans [OF c1 adv_loop_carried [OF l _ assms]] r1 m Inr l
    show ?thesis by (simp add: download_advanced_replays_def)
  qed
qed

lemma fetch_tag_carried:
  assumes "(g, label) \<in> set GAME_TYPES"
  shows "carried u g label (files w) (files (snd (fetch_tag R t w)))"
proof -
  obtain r1 w1 where b: "download_base_replays R t w = (r1, w1)"
    by (cases "download_base_replays R t w")
  from download_base_replays_carried [OF assms, of u w R t] b
  have c1: "carried u g label (files w) (files w1)" by simp
  show ?thesis
  proof (cases r1)
    case (Inl e)
    with b c1 show ?thesis by (simp add: fetch_tag_def)
  next
    case (Inr x)
    from carried_trans [OF c1 download_advanced_replays_carried [OF assms, of u w1 R t]] b Inr
    show ?thesis by (simp add: fetch_tag_def)
  qed
qed

lemma runs_carried:
  "(g, label) \<in> set GAME_TYPES \<Longrightarrow> carried u g label (files w) (files (runs rts w))"
proof (induction rts arbitrary: w)
  case Nil
  then show ?case by (simp add: carried_same)
next
  case (Cons rt rts)
  obtain R t where rt: "rt = (R, t)" by (cases rt)
  from carried_trans [OF fetch_tag_carried [OF Cons.prems, of u w R t]
      Cons.IH [OF Cons.prems, of "snd (fetch_tag R t w)"]] rt
  show ?case by simp
qed

text \<open>
  Claim C3, as the code has it. The advanced file of a category of a user is absent at
  first. Identities, of that user or of others, are then fetched any number of times,
  each time against any remote, in any order, each fetch going on from what the one
  before left, however it ended (normally, or by an exception at any point). If the
  identifiers that the listing file of the category then holds under the label are
  strings, the advanced file is absent or empty, or holds an object whose every key is
  one of these identifiers.
\<close>

theorem C3_keys_are_listed:
  assumes "(g, label) \<in> set GAME_TYPES"
    and "files w (adv_file u g) = None"
    and "list_all is_str (listed_ids (files (runs rts w) (base_file u g)) label)"
  shows "subset_inv (files (runs rts w)) u g label"
proof -
  from assms(2) have "subset_inv (files w) u g label" by (simp add: subset_inv_blank)
  from carried_inv [OF runs_carried [OF assms(1)] assms(3) this] show ?thesis .
qed

theorem C3_keys_are_listed_witness:
  "(''qm'', ''Quick Match'') \<in> set GAME_TYPES \<and>
   files no_files (adv_file ''n'' ''qm'') = None \<and>
   list_all is_str (listed_ids
     (files (runs [(\<lambda>h. remote_ab 200 500, tag1), (\<lambda>h. remote_ab 200 200, tag1)] no_files)
        (base_file ''n'' ''qm'')) ''Quick Match'') \<and>
   subset_inv
     (files (runs [(\<lambda>h. remote_ab 200 500, tag1), (\<lambda>h. remote_ab 200 200, tag1)] no_files))
     ''n'' ''qm'' ''Quick Match'' \<and>
   files (runs [(\<lambda>h. remote_ab 200 500, tag1)] no_files) (adv_file ''n'' ''qm'') =
     Some (File (Doc (JObj [(''a'', JStr ''payload of a'')]))) \<and>
   listed_ids (files (runs [(\<lambda>h. remote_ab 200 500, tag1)] no_files) (base_file ''n'' ''qm''))
     ''Quick Match'' = [JStr ''a'', JStr ''b'']"
proof -
  have h1: "(''qm'', ''Quick Match'') \<in> set GAME_TYPES" by (simp add: GAME_TYPES_def)
  have h2: "files no_files (adv_file ''n'' ''qm'') = None"
    by (simp add: no_files_def)
  have h3: "list_all is_str (listed_ids
     (files (runs [(\<lambda>h. remote_ab 200 500, tag1), (\<lambda>h. remote_ab 200 200, tag1)] no_files)
        (base_file ''n'' ''qm'')) ''Quick Match'')"
    by code_simp
  have e1: "files (runs [(\<lambda>h. remote_ab 200 500, tag1)] no_files) (adv_file ''n'' ''qm'') =
     Some (File (Doc (JObj [(''a'', JStr ''payload of a'')])))"
    by code_simp
  have e2: "listed_ids
      (files (runs [(\<lambda>h. remote_ab 200 500, tag1)] no_files) (base_file ''n'' ''qm''))
     ''Quick Match'' = [JStr ''a'', JStr ''b'']"
    by code_simp
  from C3_keys_are_listed [OF h1 h2 h3] h1 h2 h3 e1 e2 show ?thesis by blast
qed

text \<open>
  The claim as written fails for an identifier that is not a string. The listing holds
  the number 0, the detail response is a list, so that line 124 stores its element 0
  under the key 0, and \<^verbatim>\<open>json.dump\<close> writes that key as the text \<^verbatim>\<open>0\<close>: the advanced file
  holds a key, the string \<^verbatim>\<open>0\<close>, that is not one of the listed identifiers.
\<close>

theorem C3_numbered_identifier_counterexample:
  "files no_files (base_file ''n'' ''qm'') = None \<and>
   files no_files (adv_file ''n'' ''qm'') = None \<and>
   fst (fetch_tag (\<lambda>h. remote_numbered) tag1 no_files) = Inr () \<and>
   files (runs [(\<lambda>h. remote_numbered, tag1)] no_files) (adv_file ''n'' ''qm'') =
     Some (File (Doc (JObj [(''0'', JStr ''payload'')]))) \<and>
   listed_ids (files (runs [(\<lambda>h. remote_numbered, tag1)] no_files) (base_file ''n'' ''qm''))
     ''Quick Match'' = [JInt 0] \<and>
   JStr ''0'' \<notin> set [JInt 0] \<and>
   \<not> subset_inv (files (runs [(\<lambda>h. remote_numbered, tag1)] no_files))
       ''n'' ''qm'' ''Quick Match''"
  by code_simp

subsection \<open>A second fetch against the same remote\<close>

text \<open>
  What the loop over string identifiers returns is a record set that could have been
  parsed; it keeps the keys it started with, and it is stable when the remote answers by
  the request alone.
\<close>

lemma fetch_loop_settled:
  "fetch_loop (\<lambda>h. r) t u g (map JStr ss) (loaded a) c w = (Inr (adv', c'), w') \<Longrightarrow>
   \<exists>a'. adv' = loaded a' \<and> (\<forall>x. contains a x = Inr True \<longrightarrow> contains a' x = Inr True) \<and>
     stable r t (map JStr ss) (loaded a')"
proof (induction ss arbitrary: a c w)
  case Nil
  then have "adv' = loaded a" by simp
  then show ?case by (auto simp del: loaded.simps)
next
  case (Cons s rest)
  show ?case
  proof (cases "contains a s")
    case (Inl e)
    from fetch_loop_unreadable [OF this, of "\<lambda>h. r" t u g "map JStr rest" c w] Cons.prems
    show ?thesis by simp
  next
    case (Inr bl)
    show ?thesis
    proof (cases bl)
      case True
      with Inr have p: "contains a s = Inr True" by simp
      from fetch_loop_present [OF p, of "\<lambda>h. r" t u g "map JStr rest" c w] Cons.prems
      have "fetch_loop (\<lambda>h. r) t u g (map JStr rest) (loaded a) c w = (Inr (adv', c'), w')"
        by simp
      from Cons.IH [OF this] obtain a' where
        a': "adv' = loaded a'" "\<forall>x. contains a x = Inr True \<longrightarrow> contains a' x = Inr True"
          "stable r t (map JStr rest) (loaded a')"
        by blast
      from a'(2) p have "member (loaded a') (JStr s) = Inr True"
        by (simp add: member_loaded del: loaded.simps)
      with a'(3) have "stable r t (map JStr (s # rest)) (loaded a')"
        by (simp del: loaded.simps)
      with a'(1,2) show ?thesis by blast
    next
      case False
      with Inr have nc: "contains a s = Inr False" by simp
      show ?thesis
      proof (cases rule: fetch_loop_outcomes [OF nc, of "\<lambda>h. r" w t u g "map JStr rest" c])
        case (1 j v kvs)
        with Cons.prems
        have "fetch_loop (\<lambda>h. r) t u g (map JStr rest) (loaded (JObj (dict_set kvs s v)))
            (c + 1) (send (detail_req t s) w) = (Inr (adv', c'), w')"
          by simp
        from Cons.IH [OF this] obtain a' where
          a': "adv' = loaded a'"
            "\<forall>x. contains (JObj (dict_set kvs s v)) x = Inr True \<longrightarrow> contains a' x = Inr True"
            "stable r t (map JStr rest) (loaded a')"
          by blast
        have "contains (JObj (dict_set kvs s v)) s = Inr True" by (simp add: dict_set_keys)
        with a'(2) have "member (loaded a') (JStr s) = Inr True"
          by (simp add: member_loaded del: loaded.simps)
        with a'(3) have st: "stable r t (map JStr (s # rest)) (loaded a')"
          by (simp del: loaded.simps)
        have "contains a' x = Inr True" if "contains a x = Inr True" for x
        proof -
          from that 1(3) have "contains (JObj (dict_set kvs s v)) x = Inr True"
            by (simp add: dict_set_keys)
          with a'(2) show ?thesis by blast
        qed
        with a'(1) st show ?thesis by blast
      next
        case (2 st bd)
        with Cons.prems have a': "adv' = loaded a" by simp
        from nc have "member (loaded a) (JStr s) = Inr False" by (simp add: member_loaded)
        moreover from 2(1,2) have "refused r (ReplayData (base_url t) (mode t) (api_token t) (JStr s))"
          by (simp add: refused_def detail_req_def)
        ultimately have "stable r t (map JStr (s # rest)) (loaded a)"
          by (simp del: loaded.simps)
        with a' show ?thesis by blast
      next
        case (3 e)
        with Cons.prems show ?thesis by simp
      qed
    qed
  qed
qed

text \<open>
  On a stable record set the loop returns the set and the count unchanged, and its
  requests, if any, are refused ones.
\<close>

lemma stable_fetch_loop:
  "stable r t ids a \<Longrightarrow>
   \<exists>w' new nl. fetch_loop (\<lambda>h. r) t u g ids a c w = (Inr (a, c), w') \<and> files w' = files w \<and>
     trace w' = trace w @ new \<and> list_all (refused r) new \<and>
     log w' = log w @ nl \<and> filter reports_download nl = []"
proof (induction ids)
  case Nil
  then show ?case by simp
next
  case (Cons rid rest)
  from Cons.prems obtain bl where bl: "member a rid = Inr bl"
    by (cases "member a rid") simp_all
  show ?case
  proof (cases bl)
    case True
    with Cons.prems bl have "stable r t rest a" by simp
    from Cons.IH [OF this] bl True show ?thesis by (simp add: fetch_loop_skip)
  next
    case False
    with Cons.prems bl
    have rf: "refused r (ReplayData (base_url t) (mode t) (api_token t) rid)" by simp
    then obtain st bd where
      "r (ReplayData (base_url t) (mode t) (api_token t) rid) = Response st bd" "st \<noteq> 200"
      by (auto simp: refused_def split: response.splits)
    with bl False
    have "fetch_loop (\<lambda>h. r) t u g (rid # rest) a c w =
         (Inr (a, c),
          add_log [ErrorUnableToDownload rid u g, ErrorResponse (Response st bd)]
            (send (ReplayData (base_url t) (mode t) (api_token t) rid) w))"
      by (simp add: fetch_loop_refused)
    with rf show ?thesis by (simp add: reports_download_def)
  qed
qed

lemma adv_step_raises:
  "(\<forall>c. files w (base_file u g) \<noteq> Some (File c)) \<or>
   adv_records (files w (adv_file u g)) = None \<Longrightarrow>
   \<exists>e. fst (adv_step R t u g label w) = Inl e"
  by (auto simp: adv_step_def load_adv_def adv_records_def Let_def
      split: option.splits node.splits content.splits)

text \<open>A step that ends normally leaves its category settled.\<close>

lemma adv_step_settles:
  assumes s: "adv_step (\<lambda>h. r) t u g label w = (Inr x, w')"
    and str: "list_all is_str (listed_ids (files w (base_file u g)) label)"
  shows "settled r t (files w') u (g, label)"
proof -
  have "\<exists>c a. files w (base_file u g) = Some (File c) \<and>
      adv_records (files w (adv_file u g)) = Some a"
  proof (rule ccontr)
    assume "\<not> ?thesis"
    then have "(\<forall>c. files w (base_file u g) \<noteq> Some (File c)) \<or>
         adv_records (files w (adv_file u g)) = None"
      by auto
    from adv_step_raises [OF this, of "\<lambda>h. r" t label] s show False by simp
  qed
  then obtain c a where c: "files w (base_file u g) = Some (File c)"
    and a: "adv_records (files w (adv_file u g)) = Some a" by blast
  from s adv_step_reconcile [OF a c, of "\<lambda>h. r" t label]
  have rc: "reconcile (\<lambda>h. r) t u g label c (loaded a) (loop_start u g w) = (Inr x, w')"
    by simp
  from rc obtain b where b: "c = Doc b" by (cases c) (simp_all add: reconcile_def)
  have fb: "files (loop_start u g w) (base_file u g) = Some (File (Doc b))"
    using c b by (simp add: loop_start_def)
  show ?thesis
  proof (cases "truthy b")
    case False
    with rc b have "w' = add_log [InfoNoReplaysExist u g]
        (write_file (adv_file u g) (Doc a) (loop_start u g w))"
      using reconcile_empty [of b label "\<lambda>h. r" t u g "loaded a" "loop_start u g w"] by simp
    with fb False show ?thesis by (simp add: settled_def settled_nodes_def)
  next
    case True
    from rc b True obtain listing where listing: "getitem b label = Inr listing"
      by (cases "getitem b label") (simp_all add: reconcile_def)
    from rc b True listing obtain ids where ids: "py_iter listing = Inr ids"
      by (cases "py_iter listing") (simp_all add: reconcile_def)
    from str c b listing ids have "list_all is_str ids" by (simp add: listed_ids_def)
    from strings_are_mapped [OF this] obtain ss where ss: "ids = map JStr ss" by blast
    obtain lres w1 where
      l: "fetch_loop (\<lambda>h. r) t u g ids (loaded a) 0 (loop_start u g w) = (lres, w1)"
      by (cases "fetch_loop (\<lambda>h. r) t u g ids (loaded a) 0 (loop_start u g w)")
    from rc b l
      reconcile_loop [OF True listing ids, of "\<lambda>h. r" t u g "loaded a" "loop_start u g w"]
    obtain adv' cnt where lr: "lres = Inr (adv', cnt)"
      and w': "w' = add_log [if cnt = 0 then InfoAllDownloaded u g
                             else InfoAdvancedDownloaded cnt]
                      (write_file (adv_file u g) (Doc (dumped adv')) w1)"
      by (cases lres) auto
    from l lr ss fetch_loop_settled [of r t u g ss a 0 "loop_start u g w" adv' cnt w1]
    obtain a' where a': "adv' = loaded a'" and st: "stable r t ids (loaded a')"
      by auto
    from a' have da: "dumped adv' = a'" by simp
    from fetch_loop_files [OF l] have "files w1 = files (loop_start u g w)" .
    with w' fb True listing ids st da show ?thesis
      by (simp add: settled_def settled_nodes_def del: loaded.simps)
  qed
qed

lemma settled_files:
  assumes "settled r t fs u (g, label)"
  shows "\<exists>b a. fs (base_file u g) = Some (File (Doc b)) \<and>
     fs (adv_file u g) = Some (File (Doc a)) \<and>
     (\<not> truthy b \<or> (\<exists>listing ids. truthy b \<and> getitem b label = Inr listing \<and>
        py_iter listing = Inr ids \<and> stable r t ids (loaded a)))"
proof -
  from assms
  have s: "settled_nodes r t label (fs (base_file u g)) (fs (adv_file u g))"
    by (simp add: settled_def)
  from s obtain b where nb: "fs (base_file u g) = Some (File (Doc b))"
    by (auto simp: settled_nodes_def split: option.splits node.splits content.splits)
  from s nb obtain a where na: "fs (adv_file u g) = Some (File (Doc a))"
    by (auto simp: settled_nodes_def split: option.splits node.splits content.splits)
  show ?thesis
  proof (cases "truthy b")
    case False
    with nb na show ?thesis by simp
  next
    case True
    with s nb na obtain listing where l: "getitem b label = Inr listing"
      by (cases "getitem b label") (simp_all add: settled_nodes_def)
    with s nb na True obtain ids where i: "py_iter listing = Inr ids"
      by (cases "py_iter listing") (simp_all add: settled_nodes_def)
    with s nb na True l have "stable r t ids (loaded a)"
      by (simp add: settled_nodes_def del: loaded.simps)
    with nb na True l i show ?thesis by simp
  qed
qed

lemma rewrite_same:
  "files w p = Some (File c) \<Longrightarrow> (files w)(p \<mapsto> File c) = files w"
  by (simp add: fun_upd_idem)

text \<open>
  The step of a settled category ends normally and leaves every file as it was, with no
  request but refused ones and no downloaded record to report.
\<close>

lemma settled_adv_step:
  assumes "settled r t (files w) u (g, label)"
  shows "\<exists>w' new nl. adv_step (\<lambda>h. r) t u g label w = (Inr (), w') \<and> files w' = files w \<and>
     trace w' = trace w @ new \<and> list_all (refused r) new \<and>
     log w' = log w @ nl \<and> filter reports_download nl = []"
proof -
  from settled_files [OF assms] obtain b a where
    fb: "files w (base_file u g) = Some (File (Doc b))" and
    fa: "files w (adv_file u g) = Some (File (Doc a))" and
    st: "\<not> truthy b \<or> (\<exists>listing ids. truthy b \<and> getitem b label = Inr listing \<and>
        py_iter listing = Inr ids \<and> stable r t ids (loaded a))"
    by blast
  from fa have ar: "adv_records (files w (adv_file u g)) = Some a"
    by (simp add: adv_records_def)
  note rs = adv_step_reconcile [OF ar fb, of "\<lambda>h. r" t label]
  show ?thesis
  proof (cases "truthy b")
    case False
    then have "adv_step (\<lambda>h. r) t u g label w =
        (Inr (), add_log [InfoNoReplaysExist u g]
                   (write_file (adv_file u g) (Doc a) (loop_start u g w)))"
      using rs reconcile_empty [of b label "\<lambda>h. r" t u g "loaded a" "loop_start u g w"]
      by simp
    with fa show ?thesis
      by (simp add: loop_start_def rewrite_same reports_download_def)
  next
    case True
    with st obtain listing ids where h: "getitem b label = Inr listing"
      "py_iter listing = Inr ids" "stable r t ids (loaded a)" by blast
    from stable_fetch_loop [OF h(3), of u g 0 "loop_start u g w"] obtain w1 new nl where
      l: "fetch_loop (\<lambda>h. r) t u g ids (loaded a) 0 (loop_start u g w) =
            (Inr (loaded a, 0), w1)" and
      f1: "files w1 = files (loop_start u g w)" and
      t1: "trace w1 = trace (loop_start u g w) @ new" "list_all (refused r) new" and
      l1: "log w1 = log (loop_start u g w) @ nl" "filter reports_download nl = []"
      by blast
    from adv_step_loop [OF fb True h(1,2) ar l]
    have "adv_step (\<lambda>h. r) t u g label w =
        (Inr (), add_log [InfoAllDownloaded u g] (write_file (adv_file u g) (Doc a) w1))"
      by (simp del: loaded.simps)
    with fa f1 t1 l1 show ?thesis
      by (simp add: loop_start_def rewrite_same reports_download_def)
  qed
qed


lemma settled_cong:
  "fs' (base_file u (fst gl)) = fs (base_file u (fst gl)) \<Longrightarrow>
   fs' (adv_file u (fst gl)) = fs (adv_file u (fst gl)) \<Longrightarrow>
   settled r t fs' u gl = settled r t fs u gl"
  by (simp add: settled_def)

text \<open>A loop over the categories that ends normally leaves each of them settled.\<close>

lemma adv_loop_settles:
  "adv_loop (\<lambda>h. r) t u gls w = (Inr x, w') \<Longrightarrow> distinct (map fst gls) \<Longrightarrow>
   (\<forall>gl\<in>set gls. list_all is_str (listed_ids (files w (base_file u (fst gl))) (snd gl))) \<Longrightarrow>
   gl \<in> set gls \<or> (fst gl \<notin> fst ` set gls \<and> settled r t (files w) u gl) \<Longrightarrow>
   settled r t (files w') u gl"
proof (induction gls arbitrary: w)
  case Nil
  then show ?case by simp
next
  case (Cons gl1 gls)
  obtain g1 l1 where gl1: "gl1 = (g1, l1)" by (cases gl1)
  obtain r1 w1 where s: "adv_step (\<lambda>h. r) t u g1 l1 w = (r1, w1)"
    by (cases "adv_step (\<lambda>h. r) t u g1 l1 w")
  from Cons.prems(1) s gl1 obtain y where r1: "r1 = Inr y"
    and rest: "adv_loop (\<lambda>h. r) t u gls w1 = (Inr x, w')"
    by (cases r1) simp_all
  from Cons.prems(2) gl1 have d: "distinct (map fst gls)" and n1: "g1 \<notin> fst ` set gls"
    by simp_all
  from Cons.prems(3) gl1
  have str1: "list_all is_str (listed_ids (files w (base_file u g1)) l1)" by simp
  have strs: "\<forall>gl\<in>set gls. list_all is_str (listed_ids (files w1 (base_file u (fst gl))) (snd gl))"
  proof
    fix gl' assume "gl' \<in> set gls"
    with Cons.prems(3)
    have "list_all is_str (listed_ids (files w (base_file u (fst gl'))) (snd gl'))" by simp
    with adv_step_frame [OF s, of "base_file u (fst gl')"]
    show "list_all is_str (listed_ids (files w1 (base_file u (fst gl'))) (snd gl'))" by simp
  qed
  have "gl \<in> set gls \<or> (fst gl \<notin> fst ` set gls \<and> settled r t (files w1) u gl)"
  proof (cases "gl \<in> set gls")
    case True
    then show ?thesis by simp
  next
    case False
    show ?thesis
    proof (cases "gl = gl1")
      case True
      from adv_step_settles [of r t u g1 l1 w y w1] s r1 str1
      have "settled r t (files w1) u (g1, l1)" by simp
      with True gl1 n1 show ?thesis by simp
    next
      case ne: False
      with False Cons.prems(4)
      have o: "fst gl \<notin> fst ` set (gl1 # gls)" "settled r t (files w) u gl" by auto
      then have "fst gl \<noteq> g1" using gl1 by auto
      then have "files w1 (base_file u (fst gl)) = files w (base_file u (fst gl))"
        "files w1 (adv_file u (fst gl)) = files w (adv_file u (fst gl))"
        using adv_step_frame [OF s] by simp_all
      from settled_cong [OF this, of r t] o show ?thesis by auto
    qed
  qed
  from Cons.IH [OF rest d strs this] show ?case .
qed

lemma settled_adv_loop:
  "(\<forall>gl\<in>set gls. settled r t (files w) u gl) \<Longrightarrow>
   \<exists>w' new nl. adv_loop (\<lambda>h. r) t u gls w = (Inr (), w') \<and> files w' = files w \<and>
     trace w' = trace w @ new \<and> list_all (refused r) new \<and>
     log w' = log w @ nl \<and> filter reports_download nl = []"
proof (induction gls arbitrary: w)
  case Nil
  then show ?case by simp
next
  case (Cons gl1 gls)
  obtain g1 l1 where gl1: "gl1 = (g1, l1)" by (cases gl1)
  with Cons.prems have "settled r t (files w) u (g1, l1)" by simp
  from settled_adv_step [OF this] obtain w1 n1 nl1 where
    s: "adv_step (\<lambda>h. r) t u g1 l1 w = (Inr (), w1)" and f1: "files w1 = files w" and
    t1: "trace w1 = trace w @ n1" "list_all (refused r) n1" and
    l1: "log w1 = log w @ nl1" "filter reports_download nl1 = []"
    by blast
  from Cons.prems f1 have "\<forall>gl\<in>set gls. settled r t (files w1) u gl" by simp
  from Cons.IH [OF this] obtain w2 n2 nl2 where
    r: "adv_loop (\<lambda>h. r) t u gls w1 = (Inr (), w2)" and f2: "files w2 = files w1" and
    t2: "trace w2 = trace w1 @ n2" "list_all (refused r) n2" and
    l2: "log w2 = log w1 @ nl2" "filter reports_download nl2 = []"
    by blast
  have "adv_loop (\<lambda>h. r) t u (gl1 # gls) w = (Inr (), w2)" using gl1 s r by simp
  moreover have "files w2 = files w" using f1 f2 by simp
  moreover have "trace w2 = trace w @ (n1 @ n2)" using t1 t2 by simp
  moreover have "list_all (refused r) (n1 @ n2)" using t1 t2 by simp
  moreover have "log w2 = log w @ (nl1 @ nl2)" using l1 l2 by simp
  moreover have "filter reports_download (nl1 @ nl2) = []" using l1 l2 by simp
  ultimately show ?case by blast
qed

text \<open>Phase 1 does nothing at all to a world whose listings all parse.\<close>

lemma settled_base_loop:
  "(\<forall>gl\<in>set gls. settled r t (files w) u gl) \<Longrightarrow> base_loop R t' u gls w = (Inr (), w)"
proof (induction gls)
  case Nil
  then show ?case by simp
next
  case (Cons gl1 gls)
  obtain g1 l1 where gl1: "gl1 = (g1, l1)" by (cases gl1)
  with Cons.prems have "settled r t (files w) u (g1, l1)" by simp
  from settled_files [OF this] obtain b where
    fb: "files w (base_file u g1) = Some (File (Doc b))" by blast
  then have "base_step R t' u g1 l1 w = (Inr (), w)"
    by (simp add: base_step_present_eq verify_base_doc)
  with Cons gl1 show ?case by simp
qed

lemma base_loop_frame:
  "base_loop R t u gls w = (r, w') \<Longrightarrow> (\<forall>g. base_file u g \<noteq> p) \<Longrightarrow>
   files w' p = files w p"
proof (induction gls arbitrary: w)
  case Nil
  then show ?case by simp
next
  case (Cons gl1 gls)
  obtain g1 l1 where gl1: "gl1 = (g1, l1)" by (cases gl1)
  obtain r1 w1 where s: "base_step R t u g1 l1 w = (r1, w1)"
    by (cases "base_step R t u g1 l1 w")
  from base_step_frame [OF s] Cons.prems(2) have f1: "files w1 p = files w p" by metis
  show ?case
  proof (cases r1)
    case (Inl e)
    with Cons.prems(1) s gl1 f1 show ?thesis by simp
  next
    case (Inr y)
    with Cons.prems(1) s gl1 have "base_loop R t u gls w1 = (r, w')" by simp
    from Cons.IH [OF this Cons.prems(2)] f1 show ?thesis by simp
  qed
qed

lemma adv_loop_frame:
  "adv_loop R t u gls w = (r, w') \<Longrightarrow> (\<forall>g. adv_file u g \<noteq> p) \<Longrightarrow>
   files w' p = files w p"
proof (induction gls arbitrary: w)
  case Nil
  then show ?case by simp
next
  case (Cons gl1 gls)
  obtain g1 l1 where gl1: "gl1 = (g1, l1)" by (cases gl1)
  obtain r1 w1 where s: "adv_step R t u g1 l1 w = (r1, w1)"
    by (cases "adv_step R t u g1 l1 w")
  from adv_step_frame [OF s, of p] Cons.prems(2) have f1: "files w1 p = files w p" by metis
  show ?case
  proof (cases r1)
    case (Inl e)
    with Cons.prems(1) s gl1 f1 show ?thesis by simp
  next
    case (Inr y)
    with Cons.prems(1) s gl1 have "adv_loop R t u gls w1 = (r, w')" by simp
    from Cons.IH [OF this Cons.prems(2)] f1 show ?thesis by simp
  qed
qed

lemma makedirs_made: "makedirs d w = (Inr x, w') \<Longrightarrow> files w' d = Some Dir"
  by (auto simp: makedirs_def split: option.splits node.splits)

lemma makedirs_there: "files w d = Some Dir \<Longrightarrow> makedirs d w = (Inr (), w)"
  by (simp add: makedirs_def fun_upd_idem)

lemma GAME_TYPES_distinct: "distinct (map fst GAME_TYPES)"
  by (simp add: GAME_TYPES_def)


text \<open>After a fetch that ended normally, every category is settled and both directories exist.\<close>

lemma fetch_tag_settles:
  assumes "fetch_tag (\<lambda>h. r) t w = (Inr x, W1)" and str: "string_ids t (files W1)"
  shows "\<exists>u. username_of t = Inr u \<and> (\<forall>gl\<in>set GAME_TYPES. settled r t (files W1) u gl) \<and>
     files W1 (u @ ''/base'') = Some Dir \<and> files W1 (u @ ''/advanced'') = Some Dir"
proof -
  obtain rb wb where b: "download_base_replays (\<lambda>h. r) t w = (rb, wb)"
    by (cases "download_base_replays (\<lambda>h. r) t w")
  from assms b obtain y where rb: "rb = Inr y"
    and a: "download_advanced_replays (\<lambda>h. r) t wb = (Inr x, W1)"
    by (cases rb) (simp_all add: fetch_tag_def)
  from b rb obtain u where u: "username_of t = Inr u"
    by (cases "username_of t") (simp_all add: download_base_replays_def)
  obtain rm wm where m: "makedirs (u @ ''/base'') w = (rm, wm)"
    by (cases "makedirs (u @ ''/base'') w")
  from b rb u m obtain z where rm: "rm = Inr z"
    and bl: "base_loop (\<lambda>h. r) t u GAME_TYPES wm = (Inr y, wb)"
    by (cases rm) (simp_all add: download_base_replays_def)
  from makedirs_made m rm have "files wm (u @ ''/base'') = Some Dir" by blast
  with base_loop_frame [OF bl, of "u @ ''/base''"]
  have db: "files wb (u @ ''/base'') = Some Dir" by simp
  obtain rn wn where n: "makedirs (u @ ''/advanced'') wb = (rn, wn)"
    by (cases "makedirs (u @ ''/advanced'') wb")
  from a u n obtain z' where rn: "rn = Inr z'"
    and al: "adv_loop (\<lambda>h. r) t u GAME_TYPES wn = (Inr x, W1)"
    by (cases rn) (simp_all add: download_advanced_replays_def)
  from makedirs_made n rn have da: "files wn (u @ ''/advanced'') = Some Dir" by blast
  from makedirs_files [OF n, of "u @ ''/base''"] db
  have db': "files wn (u @ ''/base'') = Some Dir" by simp
  from adv_loop_frame [OF al, of "u @ ''/base''"] db'
  have d1: "files W1 (u @ ''/base'') = Some Dir" by simp
  from adv_loop_frame [OF al, of "u @ ''/advanced''"] da
  have d2: "files W1 (u @ ''/advanced'') = Some Dir" by simp
  have "\<forall>gl\<in>set GAME_TYPES.
      list_all is_str (listed_ids (files wn (base_file u (fst gl))) (snd gl))"
  proof
    fix gl assume "gl \<in> set GAME_TYPES"
    with str u
    have "list_all is_str (listed_ids (files W1 (base_file u (fst gl))) (snd gl))"
      by (simp add: string_ids_def list_all_iff)
    with adv_loop_frame [OF al, of "base_file u (fst gl)"]
    show "list_all is_str (listed_ids (files wn (base_file u (fst gl))) (snd gl))" by simp
  qed
  from adv_loop_settles [OF al GAME_TYPES_distinct this]
  have "\<forall>gl\<in>set GAME_TYPES. settled r t (files W1) u gl" by blast
  with u d1 d2 show ?thesis by blast
qed

text \<open>A fetch from such a world changes no file and fetches nothing.\<close>

lemma settled_fetch_tag:
  assumes u: "username_of t = Inr u"
    and st: "\<forall>gl\<in>set GAME_TYPES. settled r t (files w) u gl"
    and d: "files w (u @ ''/base'') = Some Dir" "files w (u @ ''/advanced'') = Some Dir"
  shows "\<exists>w' new nl. fetch_tag (\<lambda>h. r) t w = (Inr (), w') \<and> files w' = files w \<and>
     trace w' = trace w @ new \<and> list_all (refused r) new \<and>
     log w' = log w @ nl \<and> filter reports_download nl = []"
proof -
  have b: "download_base_replays (\<lambda>h. r) t w = (Inr (), w)"
    using u makedirs_there [OF d(1)] settled_base_loop [OF st]
    by (simp add: download_base_replays_def)
  have a: "download_advanced_replays (\<lambda>h. r) t w = adv_loop (\<lambda>h. r) t u GAME_TYPES w"
    using u makedirs_there [OF d(2)] by (simp add: download_advanced_replays_def)
  from b a have "fetch_tag (\<lambda>h. r) t w = adv_loop (\<lambda>h. r) t u GAME_TYPES w"
    by (simp add: fetch_tag_def)
  with settled_adv_loop [OF st] show ?thesis by simp
qed

text \<open>
  Claim C2, as the code has it. The remote answers by the request alone, a first fetch of
  an identity has ended normally, and the identifiers that the listing files then hold
  are strings. Then a second fetch from there ends normally,
  leaves every file (the cache files among them) as the first left it, makes no listing
  request and no detail request other than ones that the remote refuses (so none at all
  when the remote refuses none), and reports no downloaded record for any category.
\<close>

theorem C2_second_fetch_changes_nothing:
  assumes "fst (fetch_tag (\<lambda>h. r) t w) = Inr ()"
    and "string_ids t (files (snd (fetch_tag (\<lambda>h. r) t w)))"
  shows "fst (fetch_tag (\<lambda>h. r) t (snd (fetch_tag (\<lambda>h. r) t w))) = Inr () \<and>
     files (snd (fetch_tag (\<lambda>h. r) t (snd (fetch_tag (\<lambda>h. r) t w)))) =
       files (snd (fetch_tag (\<lambda>h. r) t w)) \<and>
     list_all (refused r)
       (drop (length (trace (snd (fetch_tag (\<lambda>h. r) t w))))
          (trace (snd (fetch_tag (\<lambda>h. r) t (snd (fetch_tag (\<lambda>h. r) t w)))))) \<and>
     filter reports_download
       (drop (length (log (snd (fetch_tag (\<lambda>h. r) t w))))
          (log (snd (fetch_tag (\<lambda>h. r) t (snd (fetch_tag (\<lambda>h. r) t w)))))) = []"
proof -
  obtain W1 where f: "fetch_tag (\<lambda>h. r) t w = (Inr (), W1)"
    using assms by (cases "fetch_tag (\<lambda>h. r) t w") simp
  from assms(2) f have "string_ids t (files W1)" by simp
  from fetch_tag_settles [OF f this] obtain u where
    "username_of t = Inr u" "\<forall>gl\<in>set GAME_TYPES. settled r t (files W1) u gl"
    "files W1 (u @ ''/base'') = Some Dir" "files W1 (u @ ''/advanced'') = Some Dir"
    by blast
  from settled_fetch_tag [OF this] obtain W2 new nl where
    "fetch_tag (\<lambda>h. r) t W1 = (Inr (), W2)" "files W2 = files W1"
    "trace W2 = trace W1 @ new" "list_all (refused r) new"
    "log W2 = log W1 @ nl" "filter reports_download nl = []"
    by blast
  with f show ?thesis by simp
qed

theorem C2_second_fetch_changes_nothing_witness:
  "fst (fetch_tag (\<lambda>h. remote_ab 200 200) tag1 no_files) = Inr () \<and>
   string_ids tag1 (files (snd (fetch_tag (\<lambda>h. remote_ab 200 200) tag1 no_files))) \<and>
   fst (fetch_tag (\<lambda>h. remote_ab 200 200) tag1
          (snd (fetch_tag (\<lambda>h. remote_ab 200 200) tag1 no_files))) = Inr () \<and>
   files (snd (fetch_tag (\<lambda>h. remote_ab 200 200) tag1
          (snd (fetch_tag (\<lambda>h. remote_ab 200 200) tag1 no_files)))) =
     files (snd (fetch_tag (\<lambda>h. remote_ab 200 200) tag1 no_files)) \<and>
   files (snd (fetch_tag (\<lambda>h. remote_ab 200 200) tag1 no_files)) (adv_file ''n'' ''qm'') =
     Some (File (Doc (JObj [(''a'', JStr ''payload of a''), (''b'', JStr ''payload of b'')]))) \<and>
   drop (length (trace (snd (fetch_tag (\<lambda>h. remote_ab 200 200) tag1 no_files))))
     (trace (snd (fetch_tag (\<lambda>h. remote_ab 200 200) tag1
        (snd (fetch_tag (\<lambda>h. remote_ab 200 200) tag1 no_files))))) = []"
proof -
  have h: "fst (fetch_tag (\<lambda>h. remote_ab 200 200) tag1 no_files) = Inr ()"
    by code_simp
  have h2: "string_ids tag1 (files (snd (fetch_tag (\<lambda>h. remote_ab 200 200) tag1 no_files)))"
    by code_simp
  have e1: "files (snd (fetch_tag (\<lambda>h. remote_ab 200 200) tag1 no_files))
      (adv_file ''n'' ''qm'') =
     Some (File (Doc (JObj [(''a'', JStr ''payload of a''), (''b'', JStr ''payload of b'')])))"
    by code_simp
  have e2: "drop (length (trace (snd (fetch_tag (\<lambda>h. remote_ab 200 200) tag1 no_files))))
     (trace (snd (fetch_tag (\<lambda>h. remote_ab 200 200) tag1
        (snd (fetch_tag (\<lambda>h. remote_ab 200 200) tag1 no_files))))) = []"
    by code_simp
  from C2_second_fetch_changes_nothing [OF h h2] h h2 e1 e2 show ?thesis by blast
qed

text \<open>
  The claim as written fails for a remote that refuses a detail request: the first
  fetch ends normally with the record of \<^verbatim>\<open>b\<close> missing, and the second fetch requests it
  again.
\<close>

theorem C2_refused_again_counterexample:
  "fst (fetch_tag (\<lambda>h. remote_ab 200 500) tag1 no_files) = Inr () \<and>
   drop (length (trace (snd (fetch_tag (\<lambda>h. remote_ab 200 500) tag1 no_files))))
     (trace (snd (fetch_tag (\<lambda>h. remote_ab 200 500) tag1
        (snd (fetch_tag (\<lambda>h. remote_ab 200 500) tag1 no_files))))) =
     [detail_req tag1 ''b'']"
  by code_simp

text \<open>
  An identifier that is not a string is fetched again even when its request succeeded:
  the record of the listed number 0 is in the file under the key \<^verbatim>\<open>0\<close>, a string, so the
  second fetch does not find the number among the keys, requests it, and reports one
  downloaded record.
\<close>

lemma numbered_identifier_fetched_again:
  "fst (fetch_tag (\<lambda>h. remote_numbered) tag1 no_files) = Inr () \<and>
   fst (fetch_tag (\<lambda>h. remote_numbered) tag1
          (snd (fetch_tag (\<lambda>h. remote_numbered) tag1 no_files))) = Inr () \<and>
   drop (length (trace (snd (fetch_tag (\<lambda>h. remote_numbered) tag1 no_files))))
     (trace (snd (fetch_tag (\<lambda>h. remote_numbered) tag1
        (snd (fetch_tag (\<lambda>h. remote_numbered) tag1 no_files))))) =
     [ReplayData (base_url tag1) (mode tag1) (api_token tag1) (JInt 0)] \<and>
   filter reports_download
     (drop (length (log (snd (fetch_tag (\<lambda>h. remote_numbered) tag1 no_files))))
        (log (snd (fetch_tag (\<lambda>h. remote_numbered) tag1
           (snd (fetch_tag (\<lambda>h. remote_numbered) tag1 no_files)))))) =
     [InfoAdvancedDownloaded 1]"
  by code_simp

end
